theory Spec2Isabelle
  imports Main "HOL-Library.Word"
begin

section \<open>The batching stage of the pipeline (pipeline/batch.go)\<close>

text \<open>
  The development follows \<^verbatim>\<open>src/pipeline/batch.go\<close>. A \<^verbatim>\<open>Batch\<close> is a
  resettable container of events with a forward iterator; a \<^verbatim>\<open>Batcher\<close> fills one
  open batch at a time, seals it when it is ready, hands it to a worker and commits its
  events in the order in which batches were sealed.

  Conventions of the embedding:
  \<^item> Go's \<^verbatim>\<open>int\<close> (event sizes, limits, the iterator index) is \<open>int\<close>: these
    are lengths, indices and byte counts of data held in memory.
  \<^item> Go's \<^verbatim>\<open>int64\<close> (the sequence counters) is \<open>64 word\<close>: \<open>+ 1\<close> wraps.
  \<^item> \<^verbatim>\<open>time.Time\<close> and \<^verbatim>\<open>time.Duration\<close> are \<open>int\<close> (nanoseconds);
    \<^verbatim>\<open>time.Now()\<close> is an argument \<open>now\<close> of the function that reads the clock.
  \<^item> \<^verbatim>\<open>logger.Fatalf\<close> ends the process; an index out of range, a negative
    channel size and a slice capacity out of range panic. All are values of
    \<open>error\<close>, returned on the left of a sum.
  \<^item> A slice is the list of its elements; its capacity is not modelled. An event
    reference \<^verbatim>\<open>*Event\<close> is the event: it is never nil.
\<close>

subsection \<open>Events\<close>

text \<open>
  Modelled from the spec: the type \<^verbatim>\<open>Event\<close> is declared outside
  \<^verbatim>\<open>batch.go\<close>. The batch reads its byte size \<^verbatim>\<open>Size\<close> and asks
  \<^verbatim>\<open>IsChildParentKind()\<close>, the predicate that marks a structural entry which the
  iterator skips. \<open>SeqID\<close> tells events apart.
\<close>

record Event =
  SeqID :: nat
  Size :: int
  IsChildParentKind :: bool

subsection \<open>Batch\<close>

record Batch =
  events :: "Event list"
  iteratorIndex :: int
  eventsSize :: int
  seq :: "64 word"
  timeout :: int
  startTime :: int
  maxSizeCount :: int
  maxSizeBytes :: int

datatype error = Fatal string | IndexOutOfRange | ChanSizeOutOfRange | CapOutOfRange

text \<open>\<^verbatim>\<open>&Batch{}\<close>: every field has its zero value.\<close>

definition zeroBatch :: Batch where
  "zeroBatch = \<lparr>events = [], iteratorIndex = 0, eventsSize = 0, seq = 0, timeout = 0,
     startTime = 0, maxSizeCount = 0, maxSizeBytes = 0\<rparr>"

definition reset :: "Batch \<Rightarrow> int \<Rightarrow> Batch" where
  "reset b now = b\<lparr>events := [], iteratorIndex := -1, eventsSize := 0, startTime := now\<rparr>"

definition NewPreparedBatch :: "Event list \<Rightarrow> int \<Rightarrow> Batch" where
  "NewPreparedBatch evs now = (reset zeroBatch now)\<lparr>events := evs\<rparr>"

text \<open>
  \<^verbatim>\<open>make([]*Event, 0, n)\<close>: the Go runtime panics (\<^verbatim>\<open>makeslice: cap out of range\<close>)
  or gives up for lack of memory when the capacity is negative or beyond what it can
  allocate. The largest capacity it can allocate depends on the platform and is a
  parameter, \<open>maxCap\<close>, of the model.
\<close>

definition makeEvents :: "nat \<Rightarrow> int \<Rightarrow> error + Event list" where
  "makeEvents maxCap n = (if n < 0 \<or> int maxCap < n then Inl CapOutOfRange else Inr [])"

definition newBatch :: "nat \<Rightarrow> int \<Rightarrow> int \<Rightarrow> int \<Rightarrow> int \<Rightarrow> error + Batch" where
  "newBatch maxCap maxCount maxBytes tmo now =
     (if maxCount < 0 then Inl (Fatal ''why batch max count less than 0?'')
      else if maxBytes < 0 then Inl (Fatal ''why batch size less than 0?'')
      else if maxCount = 0 \<and> maxBytes = 0 then Inl (Fatal ''batch limits are not set'')
      else
        (case makeEvents maxCap maxCount of
           Inl err \<Rightarrow> Inl err
         | Inr es \<Rightarrow>
             Inr (reset (zeroBatch\<lparr>maxSizeCount := maxCount, maxSizeBytes := maxBytes,
                                      timeout := tmo, events := es\<rparr>) now)))"

definition append_event :: "Batch \<Rightarrow> Event \<Rightarrow> Batch" where
  "append_event b e = b\<lparr>events := events b @ [e], eventsSize := eventsSize b + Size e\<rparr>"

text \<open>\<^verbatim>\<open>time.Since(t)\<close> at the instant \<open>now\<close>.\<close>

definition since :: "int \<Rightarrow> int \<Rightarrow> int" where
  "since now t = now - t"

definition isReady :: "Batch \<Rightarrow> int \<Rightarrow> bool" where
  "isReady b now =
     (let l = int (length (events b));
          isFull = (maxSizeCount b \<noteq> 0 \<and> l \<ge> maxSizeCount b)
                   \<or> (maxSizeBytes b \<noteq> 0 \<and> maxSizeBytes b \<le> eventsSize b);
          isTimeout = (l > 0 \<and> since now (startTime b) > timeout b)
      in isFull \<or> isTimeout)"

text \<open>
  The \<^verbatim>\<open>for\<close> loop of \<^verbatim>\<open>Next\<close>, from the index \<open>i\<close>: it stops at the first
  event that is not of the child-parent kind, or past the end. Reading
  \<^verbatim>\<open>b.events[i]\<close> at a negative index panics.
\<close>

function skipLoop :: "Event list \<Rightarrow> int \<Rightarrow> error + int" where
  "skipLoop evs i =
     (if i < int (length evs) then
        (if i < 0 then Inl IndexOutOfRange
         else if IsChildParentKind (evs ! nat i) then skipLoop evs (i + 1)
         else Inr i)
      else Inr i)"
  by pat_completeness auto
termination
  by (relation "measure (\<lambda>(evs, i). nat (int (length evs) - i))") auto

declare skipLoop.simps [simp del]

definition Next :: "Batch \<Rightarrow> error + (bool \<times> Batch)" where
  "Next b =
     (case skipLoop (events b) (iteratorIndex b + 1) of
        Inl err \<Rightarrow> Inl err
      | Inr i \<Rightarrow> Inr (i < int (length (events b)), b\<lparr>iteratorIndex := i\<rparr>))"

definition Value :: "Batch \<Rightarrow> error + Event" where
  "Value b =
     (if 0 \<le> iteratorIndex b \<and> iteratorIndex b < int (length (events b))
      then Inr (events b ! nat (iteratorIndex b))
      else Inl IndexOutOfRange)"

text \<open>
  The loop by which an output function reads a batch,
  \<^verbatim>\<open>for b.Next() { out = append(out, b.Value()) }\<close>: it returns the values read and
  the batch as the last \<^verbatim>\<open>Next\<close> leaves it. The loop is the caller's; the batch
  gives \<^verbatim>\<open>Next\<close> and \<^verbatim>\<open>Value\<close>.
\<close>

function iterate :: "Batch \<Rightarrow> error + (Event list \<times> Batch)" where
  "iterate b =
     (case Next b of
        Inl err \<Rightarrow> Inl err
      | Inr (ok, b') \<Rightarrow>
          if ok then
            (case Value b' of
               Inl err \<Rightarrow> Inl err
             | Inr v \<Rightarrow>
                 (case iterate b' of
                    Inl err \<Rightarrow> Inl err
                  | Inr (vs, b'') \<Rightarrow> Inr (v # vs, b'')))
          else Inr ([], b'))"
  by pat_completeness auto
termination
proof (relation "measure (\<lambda>b. nat (int (length (events b)) - iteratorIndex b))")
  show "wf (measure (\<lambda>b. nat (int (length (events b)) - iteratorIndex b)))"
    by simp
next
  fix b :: Batch and x2 :: "bool \<times> Batch" and x1 :: bool and b' :: Batch and v :: Event
  assume nx: "Next b = Inr x2" and x2: "(x1, b') = x2" and ok: x1
  from nx x2 obtain j where j: "skipLoop (events b) (iteratorIndex b + 1) = Inr j"
    and b': "b' = b\<lparr>iteratorIndex := j\<rparr>" and x1: "x1 = (j < int (length (events b)))"
    by (auto simp: Next_def split: sum.splits)
  have ge: "skipLoop evs i = Inr k \<Longrightarrow> i \<le> k" for evs i k
  proof (induction evs i rule: skipLoop.induct)
    case (1 evs i)
    then show ?case
      by (subst (asm) (2) skipLoop.simps) (auto split: if_splits)
  qed
  from ge [OF j] have "iteratorIndex b < j" by simp
  with ok x1 b'
  show "(b', b) \<in> measure (\<lambda>b. nat (int (length (events b)) - iteratorIndex b))"
    by simp
qed

declare iterate.simps [simp del]

subsection \<open>Sequences of operations on one batch\<close>

text \<open>
  The operations that the batcher and the output function apply to a batch after its
  construction. \<^verbatim>\<open>Next\<close> may panic, so a run of operations returns a sum.
\<close>

datatype batchOp = OpReset int | OpAppend Event | OpNext

fun applyOp :: "Batch \<Rightarrow> batchOp \<Rightarrow> error + Batch" where
  "applyOp b (OpReset now) = Inr (reset b now)"
| "applyOp b (OpAppend e) = Inr (append_event b e)"
| "applyOp b OpNext = (case Next b of Inl err \<Rightarrow> Inl err | Inr (_, b') \<Rightarrow> Inr b')"

fun applyOps :: "Batch \<Rightarrow> batchOp list \<Rightarrow> error + Batch" where
  "applyOps b [] = Inr b"
| "applyOps b (x # xs) = (case applyOp b x of Inl err \<Rightarrow> Inl err | Inr b' \<Rightarrow> applyOps b' xs)"

text \<open>
  A run is guarded when \<^verbatim>\<open>Next\<close> is only called while the cursor is before the
  end of the events, that is, not again after it has returned false.
\<close>

fun guarded :: "Batch \<Rightarrow> batchOp list \<Rightarrow> bool" where
  "guarded b [] = True"
| "guarded b (x # xs) =
     ((x \<noteq> OpNext \<or> iteratorIndex b < int (length (events b)))
      \<and> (case applyOp b x of Inl err \<Rightarrow> False | Inr b' \<Rightarrow> guarded b' xs))"

definition nonStructural :: "Event \<Rightarrow> bool" where
  "nonStructural e = (\<not> IsChildParentKind e)"

subsection \<open>Properties of a batch that the operations maintain\<close>

definition limitsOk :: "Batch \<Rightarrow> bool" where
  "limitsOk b = (0 \<le> maxSizeCount b \<and> 0 \<le> maxSizeBytes b)"

definition limitsSet :: "Batch \<Rightarrow> bool" where
  "limitsSet b = (0 \<le> maxSizeCount b \<and> 0 \<le> maxSizeBytes b
                  \<and> (0 < maxSizeCount b \<or> 0 < maxSizeBytes b))"

definition sizeSum :: "Batch \<Rightarrow> bool" where
  "sizeSum b = (eventsSize b = sum_list (map Size (events b)))"

definition cursorLow :: "Batch \<Rightarrow> bool" where
  "cursorLow b = (-1 \<le> iteratorIndex b)"

definition cursorIn :: "Batch \<Rightarrow> bool" where
  "cursorIn b = (-1 \<le> iteratorIndex b \<and> iteratorIndex b \<le> int (length (events b)))"

subsection \<open>Sample data\<close>

definition ev :: "nat \<Rightarrow> int \<Rightarrow> bool \<Rightarrow> Event" where
  "ev n s k = \<lparr>SeqID = n, Size = s, IsChildParentKind = k\<rparr>"

definition batch2 :: Batch where
  "batch2 = \<lparr>events = [], iteratorIndex = -1, eventsSize = 0, seq = 0, timeout = 5,
     startTime = 0, maxSizeCount = 2, maxSizeBytes = 0\<rparr>"

section \<open>Batcher\<close>

text \<open>
  The batcher runs several goroutines: producers calling \<^verbatim>\<open>Add\<close>, the heartbeat, and
  \<^verbatim>\<open>Workers\<close> workers. They are modelled as one state and a step function; a label
  names the goroutine that moves, and a run is a list of labels (a schedule).

  \<^item> The body of \<^verbatim>\<open>Add\<close> and one iteration of \<^verbatim>\<open>heartbeat\<close> run under
    \<^verbatim>\<open>mu\<close> and are one step each. The blocking receive from \<^verbatim>\<open>freeBatches\<close>
    inside them makes the step impossible (\<open>None\<close>) while the channel is empty.
  \<^item> \<^verbatim>\<open>trySendBatchAndUnlock\<close> sends on \<^verbatim>\<open>fullBatches\<close> after it has released
    \<^verbatim>\<open>mu\<close>: the sealed batch waits in \<open>sending\<close> and a later step \<open>LSend\<close>
    delivers it, so that sends of different producers can overtake each other.
  \<^item> A channel is the list of its elements, oldest first; a send into a channel that
    holds \<^verbatim>\<open>Workers\<close> elements is impossible (\<open>None\<close>).
  \<^item> \<^verbatim>\<open>commitBatch\<close> is split at its synchronisation points; the state of a worker
    is the statement it has reached.
  \<^item> \<open>history\<close> records, in order, the sealing of batches and what the workers do at
    the commit gate; it is not read by any step.
  \<^item> \<^verbatim>\<open>OutFn\<close> sees a batch through \<^verbatim>\<open>Next\<close> and \<^verbatim>\<open>Value\<close> only, which
    change nothing but the cursor; the label of the receiving step gives the cursor it
    leaves. \<^verbatim>\<open>MaintenanceFn\<close> does not touch the batcher. \<^verbatim>\<open>Stop\<close> is not
    modelled.
\<close>

record BatcherOptions =
  Workers :: int
  BatchSizeCount :: int
  BatchSizeBytes :: int
  FlushTimeout :: int

text \<open>
  A worker is between two batches (\<open>Idle\<close>, holding its local slice \<^verbatim>\<open>events\<close>), or
  inside \<^verbatim>\<open>commitBatch\<close> after the swap of line 173, with the batch and the local
  slice:
  \<^item> \<open>AtLock\<close>: about to acquire \<^verbatim>\<open>seqMu\<close> (line 178, or on the way out of
    \<^verbatim>\<open>cond.Wait\<close> after a broadcast);
  \<^item> \<open>AtCheck\<close>: holds \<^verbatim>\<open>seqMu\<close>, at the loop condition of line 179;
  \<^item> \<open>InWait\<close>: parked in \<^verbatim>\<open>cond.Wait\<close>, \<^verbatim>\<open>seqMu\<close> released;
  \<^item> \<open>AtIncr\<close>: left the loop, at \<^verbatim>\<open>b.commitSeq++\<close> (line 182);
  \<^item> \<open>AtCommit\<close>: in the loop of lines 184 to 186, with the events still to commit;
  \<^item> \<open>AtUnlock\<close>: after the broadcast, at \<^verbatim>\<open>seqMu.Unlock\<close> (line 189);
  \<^item> \<open>AtSend\<close>: at the send to \<^verbatim>\<open>freeBatches\<close> (line 191).
\<close>

datatype worker =
    Idle "Event list"
  | AtLock Batch "Event list"
  | AtCheck Batch "Event list"
  | InWait Batch "Event list"
  | AtIncr Batch "Event list"
  | AtCommit Batch "Event list" "Event list"
  | AtUnlock Batch "Event list"
  | AtSend Batch "Event list"

datatype action =
    Sealed Batch
  | Called nat Batch
  | Passed nat "64 word"
  | Advanced nat "64 word"
  | Committed nat "64 word" Event
  | Unlocked nat "64 word"
  | Freed nat Batch

record Batcher =
  opts :: BatcherOptions
  batch :: "Batch option"
  freeBatches :: "Batch list"
  fullBatches :: "Batch list"
  sending :: "Batch list"
  outSeq :: "64 word"
  commitSeq :: "64 word"
  seqMu :: "nat option"
  workers :: "worker list"
  history :: "action list"

datatype label =
    LAdd Event int int
  | LTick int int
  | LSend nat
  | LRecv nat int
  | LStep nat

text \<open>
  \<^verbatim>\<open>Start\<close>: \<^verbatim>\<open>make(chan *Batch, Workers)\<close> panics for a negative size; each round
  of the loop calls \<^verbatim>\<open>newBatch\<close>, which may be fatal or panic, and starts a worker with an empty
  local slice. All batches are created at the one instant \<open>now\<close>: \<^verbatim>\<open>getBatch\<close>
  resets a batch before it is used.
\<close>

definition Start :: "nat \<Rightarrow> BatcherOptions \<Rightarrow> int \<Rightarrow> error + Batcher" where
  "Start maxCap os now =
     (if Workers os < 0 then Inl ChanSizeOutOfRange
      else if Workers os = 0 then
        Inr \<lparr>opts = os, batch = None, freeBatches = [], fullBatches = [], sending = [],
             outSeq = 0, commitSeq = 0, seqMu = None, workers = [], history = []\<rparr>
      else
        (case newBatch maxCap (BatchSizeCount os) (BatchSizeBytes os) (FlushTimeout os) now of
           Inl err \<Rightarrow> Inl err
         | Inr b \<Rightarrow>
             Inr \<lparr>opts = os, batch = None, freeBatches = replicate (nat (Workers os)) b,
                  fullBatches = [], sending = [], outSeq = 0, commitSeq = 0, seqMu = None,
                  workers = replicate (nat (Workers os)) (Idle []), history = []\<rparr>))"

text \<open>
  \<^verbatim>\<open>getBatch\<close> at the instant \<open>now\<close>: returns the open batch, or takes one from
  \<^verbatim>\<open>freeBatches\<close> (impossible while the channel is empty) and resets it.
\<close>

definition getBatch :: "Batcher \<Rightarrow> int \<Rightarrow> (Batch \<times> Batcher) option" where
  "getBatch \<sigma> now =
     (case batch \<sigma> of
        Some b \<Rightarrow> Some (b, \<sigma>)
      | None \<Rightarrow>
          (case freeBatches \<sigma> of
             [] \<Rightarrow> None
           | b # rest \<Rightarrow>
               Some (reset b now, \<sigma>\<lparr>batch := Some (reset b now), freeBatches := rest\<rparr>)))"

text \<open>
  \<^verbatim>\<open>trySendBatchAndUnlock\<close> up to the release of \<^verbatim>\<open>mu\<close>; \<open>now\<close> is the instant
  at which \<^verbatim>\<open>isReady\<close> reads the clock. The sealed batch joins \<open>sending\<close>.
\<close>

definition trySendBatchAndUnlock :: "Batcher \<Rightarrow> Batch \<Rightarrow> int \<Rightarrow> Batcher" where
  "trySendBatchAndUnlock \<sigma> b now =
     (if \<not> isReady b now then \<sigma>
      else \<sigma>\<lparr>outSeq := outSeq \<sigma> + 1, batch := None,
             sending := sending \<sigma> @ [b\<lparr>seq := outSeq \<sigma>\<rparr>],
             history := history \<sigma> @ [Sealed (b\<lparr>seq := outSeq \<sigma>\<rparr>)]\<rparr>)"

text \<open>
  \<^verbatim>\<open>Add\<close>: the open batch is shared with \<^verbatim>\<open>b.batch\<close>, so the append is written
  back to the state.
\<close>

definition Add :: "Batcher \<Rightarrow> Event \<Rightarrow> int \<Rightarrow> int \<Rightarrow> Batcher option" where
  "Add \<sigma> e now now' =
     (case getBatch \<sigma> now of
        None \<Rightarrow> None
      | Some (b, \<sigma>1) \<Rightarrow>
          Some (trySendBatchAndUnlock (\<sigma>1\<lparr>batch := Some (append_event b e)\<rparr>)
                  (append_event b e) now'))"

text \<open>One round of the loop of \<^verbatim>\<open>heartbeat\<close>.\<close>

definition heartbeat :: "Batcher \<Rightarrow> int \<Rightarrow> int \<Rightarrow> Batcher option" where
  "heartbeat \<sigma> now now' =
     (case getBatch \<sigma> now of
        None \<Rightarrow> None
      | Some (b, \<sigma>1) \<Rightarrow> Some (trySendBatchAndUnlock \<sigma>1 b now'))"

text \<open>The send \<^verbatim>\<open>b.fullBatches <- batch\<close> of the sealed batch number \<open>i\<close> in flight.\<close>

definition sendFull :: "Batcher \<Rightarrow> nat \<Rightarrow> Batcher option" where
  "sendFull \<sigma> i =
     (if i < length (sending \<sigma>) \<and> int (length (fullBatches \<sigma>)) < Workers (opts \<sigma>)
      then Some (\<sigma>\<lparr>fullBatches := fullBatches \<sigma> @ [sending \<sigma> ! i],
                    sending := take i (sending \<sigma>) @ drop (Suc i) (sending \<sigma>)\<rparr>)
      else None)"

text \<open>
  One round of \<^verbatim>\<open>work\<close> up to the swap in \<^verbatim>\<open>commitBatch\<close>: the idle worker \<open>w\<close>
  receives the oldest batch of \<^verbatim>\<open>fullBatches\<close>, \<^verbatim>\<open>OutFn\<close> leaves the cursor at
  \<open>c\<close>, the worker calls \<^verbatim>\<open>commitBatch\<close> with this batch (recorded as \<open>Called\<close>),
  and line 173 swaps the events of the batch with the local slice.
\<close>

definition work :: "Batcher \<Rightarrow> nat \<Rightarrow> int \<Rightarrow> Batcher option" where
  "work \<sigma> w c =
     (if w < length (workers \<sigma>) then
        (case (workers \<sigma> ! w, fullBatches \<sigma>) of
           (Idle es, b # rest) \<Rightarrow>
             Some (\<sigma>\<lparr>fullBatches := rest,
                      workers := (workers \<sigma>)[w := AtLock (b\<lparr>iteratorIndex := c, events := es\<rparr>)
                                                        (events b)],
                      history := history \<sigma> @ [Called w (b\<lparr>iteratorIndex := c\<rparr>)]\<rparr>)
         | _ \<Rightarrow> None)
      else None)"

text \<open>\<^verbatim>\<open>cond.Broadcast\<close> wakes every worker parked in \<^verbatim>\<open>cond.Wait\<close>.\<close>

fun wake :: "worker \<Rightarrow> worker" where
  "wake (InWait b es) = AtLock b es"
| "wake (Idle es) = Idle es"
| "wake (AtLock b es) = AtLock b es"
| "wake (AtCheck b es) = AtCheck b es"
| "wake (AtIncr b es) = AtIncr b es"
| "wake (AtCommit b es rest) = AtCommit b es rest"
| "wake (AtUnlock b es) = AtUnlock b es"
| "wake (AtSend b es) = AtSend b es"

text \<open>
  The next step of worker \<open>w\<close> inside \<^verbatim>\<open>commitBatch\<close>. \<^verbatim>\<open>cond.Wait\<close> releases
  \<^verbatim>\<open>seqMu\<close> and parks in one step; the worker returns to the loop condition once it
  has been woken and has acquired \<^verbatim>\<open>seqMu\<close> again.
\<close>

fun commitBatch :: "nat \<Rightarrow> worker \<Rightarrow> Batcher \<Rightarrow> Batcher option" where
  "commitBatch w (Idle es) \<sigma> = None"
| "commitBatch w (AtLock b es) \<sigma> =
     (if seqMu \<sigma> = None
      then Some (\<sigma>\<lparr>seqMu := Some w, workers := (workers \<sigma>)[w := AtCheck b es]\<rparr>)
      else None)"
| "commitBatch w (AtCheck b es) \<sigma> =
     (if commitSeq \<sigma> \<noteq> seq b
      then Some (\<sigma>\<lparr>seqMu := None, workers := (workers \<sigma>)[w := InWait b es]\<rparr>)
      else Some (\<sigma>\<lparr>workers := (workers \<sigma>)[w := AtIncr b es],
                    history := history \<sigma> @ [Passed w (seq b)]\<rparr>))"
| "commitBatch w (InWait b es) \<sigma> = None"
| "commitBatch w (AtIncr b es) \<sigma> =
     Some (\<sigma>\<lparr>commitSeq := commitSeq \<sigma> + 1, workers := (workers \<sigma>)[w := AtCommit b es es],
              history := history \<sigma> @ [Advanced w (commitSeq \<sigma> + 1)]\<rparr>)"
| "commitBatch w (AtCommit b es (e # rest)) \<sigma> =
     Some (\<sigma>\<lparr>workers := (workers \<sigma>)[w := AtCommit b es rest],
              history := history \<sigma> @ [Committed w (seq b) e]\<rparr>)"
| "commitBatch w (AtCommit b es []) \<sigma> =
     Some (\<sigma>\<lparr>workers := (map wake (workers \<sigma>))[w := AtUnlock b es]\<rparr>)"
| "commitBatch w (AtUnlock b es) \<sigma> =
     Some (\<sigma>\<lparr>seqMu := None, workers := (workers \<sigma>)[w := AtSend b es],
              history := history \<sigma> @ [Unlocked w (seq b)]\<rparr>)"
| "commitBatch w (AtSend b es) \<sigma> =
     (if int (length (freeBatches \<sigma>)) < Workers (opts \<sigma>)
      then Some (\<sigma>\<lparr>freeBatches := freeBatches \<sigma> @ [b], workers := (workers \<sigma>)[w := Idle es],
                    history := history \<sigma> @ [Freed w b]\<rparr>)
      else None)"

fun step :: "label \<Rightarrow> Batcher \<Rightarrow> Batcher option" where
  "step (LAdd e now now') \<sigma> = Add \<sigma> e now now'"
| "step (LTick now now') \<sigma> = heartbeat \<sigma> now now'"
| "step (LSend i) \<sigma> = sendFull \<sigma> i"
| "step (LRecv w c) \<sigma> = work \<sigma> w c"
| "step (LStep w) \<sigma> =
     (if w < length (workers \<sigma>) then commitBatch w (workers \<sigma> ! w) \<sigma> else None)"

fun run :: "label list \<Rightarrow> Batcher \<Rightarrow> Batcher option" where
  "run [] \<sigma> = Some \<sigma>"
| "run (l # ls) \<sigma> = (case step l \<sigma> of None \<Rightarrow> None | Some \<sigma>' \<Rightarrow> run ls \<sigma>')"

subsection \<open>Reading the history\<close>

text \<open>
  The batches sealed so far, in the order of their sealing.
\<close>

fun sealedBatches :: "action list \<Rightarrow> Batch list" where
  "sealedBatches [] = []"
| "sealedBatches (Sealed b # as) = b # sealedBatches as"
| "sealedBatches (_ # as) = sealedBatches as"

text \<open>
  The sequence numbers with which workers have left the wait loop of
  \<^verbatim>\<open>commitBatch\<close>, and those of the batches whose worker has released \<^verbatim>\<open>seqMu\<close>
  after its commits, both in the order of the history.
\<close>

fun passedSeqs :: "action list \<Rightarrow> 64 word list" where
  "passedSeqs [] = []"
| "passedSeqs (Passed w s # as) = s # passedSeqs as"
| "passedSeqs (_ # as) = passedSeqs as"

fun unlockedSeqs :: "action list \<Rightarrow> 64 word list" where
  "unlockedSeqs [] = []"
| "unlockedSeqs (Unlocked w s # as) = s # unlockedSeqs as"
| "unlockedSeqs (_ # as) = unlockedSeqs as"

text \<open>
  A stretch of history in which no worker leaves the wait loop or releases \<^verbatim>\<open>seqMu\<close>.
\<close>

definition quiet :: "action list \<Rightarrow> bool" where
  "quiet h = (passedSeqs h = [] \<and> unlockedSeqs h = [])"

subsection \<open>Invariants of the batcher\<close>

text \<open>
  The sequence numbers of the sealed batches count up from 0, and \<^verbatim>\<open>outSeq\<close> is
  the next one.
\<close>

definition seqInv :: "Batcher \<Rightarrow> bool" where
  "seqInv \<sigma> =
     (map seq (sealedBatches (history \<sigma>)) = map word_of_nat [0..<length (sealedBatches (history \<sigma>))]
      \<and> outSeq \<sigma> = word_of_nat (length (sealedBatches (history \<sigma>))))"

text \<open>
  Neither size limit of the batch is reached (the first disjunct of \<^verbatim>\<open>isReady\<close>
  is false).
\<close>

definition notFull :: "Batch \<Rightarrow> bool" where
  "notFull b =
     ((maxSizeCount b = 0 \<or> int (length (events b)) < maxSizeCount b)
      \<and> (maxSizeBytes b = 0 \<or> eventsSize b < maxSizeBytes b))"

text \<open>
  The limits of a batch are those of the options, and valid.
\<close>

definition limitsOf :: "BatcherOptions \<Rightarrow> Batch \<Rightarrow> bool" where
  "limitsOf os b =
     (maxSizeCount b = BatchSizeCount os \<and> maxSizeBytes b = BatchSizeBytes os \<and> limitsSet b)"

text \<open>
  The open batch between two steps: its byte total is the sum of the sizes of its
  events, it is not full, and it is below the byte limit without its last event.
\<close>

definition openOk :: "BatcherOptions \<Rightarrow> Batch \<Rightarrow> bool" where
  "openOk os b =
     (limitsOf os b \<and> sizeSum b \<and> notFull b
      \<and> (events b = [] \<or> maxSizeBytes b = 0
           \<or> eventsSize b - Size (last (events b)) < maxSizeBytes b))"

text \<open>
  The size bounds of a sealed batch.
\<close>

definition sealedOk :: "BatcherOptions \<Rightarrow> Batch \<Rightarrow> bool" where
  "sealedOk os b =
     (limitsOf os b \<and> events b \<noteq> []
      \<and> (maxSizeCount b = 0 \<or> int (length (events b)) \<le> maxSizeCount b)
      \<and> (maxSizeBytes b = 0 \<or> eventsSize b \<le> maxSizeBytes b + Size (last (events b))))"

text \<open>
  The batch a worker holds, the batches held by all workers, and all batches outside the
  open slot.
\<close>

fun heldBatch :: "worker \<Rightarrow> Batch option" where
  "heldBatch (Idle es) = None"
| "heldBatch (AtLock b es) = Some b"
| "heldBatch (AtCheck b es) = Some b"
| "heldBatch (InWait b es) = Some b"
| "heldBatch (AtIncr b es) = Some b"
| "heldBatch (AtCommit b es rest) = Some b"
| "heldBatch (AtUnlock b es) = Some b"
| "heldBatch (AtSend b es) = Some b"

definition held :: "worker list \<Rightarrow> Batch set" where
  "held ps = {b. \<exists>p \<in> set ps. heldBatch p = Some b}"

definition poolBatches :: "Batcher \<Rightarrow> Batch set" where
  "poolBatches \<sigma> = set (freeBatches \<sigma>) \<union> set (fullBatches \<sigma>) \<union> set (sending \<sigma>)
                    \<union> held (workers \<sigma>)"

definition sizeInv :: "Batcher \<Rightarrow> bool" where
  "sizeInv \<sigma> =
     ((\<forall>b. batch \<sigma> = Some b \<longrightarrow> openOk (opts \<sigma>) b)
      \<and> (\<forall>b \<in> poolBatches \<sigma>. limitsOf (opts \<sigma>) b)
      \<and> (\<forall>b \<in> set (sealedBatches (history \<sigma>)). sealedOk (opts \<sigma>) b))"

text \<open>
  A worker that holds \<^verbatim>\<open>seqMu\<close>; a worker that has left the wait loop and still
  holds it, with the sequence number of its batch and whether it has incremented
  \<^verbatim>\<open>commitSeq\<close>.
\<close>

fun inGate :: "worker \<Rightarrow> bool" where
  "inGate (AtCheck b es) = True"
| "inGate (AtIncr b es) = True"
| "inGate (AtCommit b es rest) = True"
| "inGate (AtUnlock b es) = True"
| "inGate _ = False"

fun inSection :: "worker \<Rightarrow> (64 word \<times> bool) option" where
  "inSection (AtIncr b es) = Some (seq b, False)"
| "inSection (AtCommit b es rest) = Some (seq b, True)"
| "inSection (AtUnlock b es) = Some (seq b, True)"
| "inSection _ = None"

text \<open>
  \<^verbatim>\<open>seqMu\<close> is held by exactly the worker that is between its acquisition and its
  release.
\<close>

definition lockOk :: "Batcher \<Rightarrow> bool" where
  "lockOk \<sigma> =
     ((\<forall>w. seqMu \<sigma> = Some w \<longrightarrow> w < length (workers \<sigma>))
      \<and> (\<forall>w < length (workers \<sigma>). inGate (workers \<sigma> ! w) = (seqMu \<sigma> = Some w)))"

text \<open>
  Where the history shows a worker leaving the wait loop, the sequence number is the
  number of earlier such events, and all of those were followed by their release; a
  commit stands after the event of its own batch, with no other worker in between.
\<close>

definition histOk :: "action list \<Rightarrow> bool" where
  "histOk h =
     ((\<forall>pre w S post. h = pre @ Passed w S # post \<longrightarrow>
          S = word_of_nat (length (passedSeqs pre)) \<and> unlockedSeqs pre = passedSeqs pre)
      \<and> (\<forall>pre w s e post. h = pre @ Committed w s e # post \<longrightarrow>
          (\<exists>p1 p2. pre = p1 @ Passed w s # p2 \<and> quiet p2)))"

text \<open>
  The history against the state: while no worker is past the wait loop, every batch
  that passed has been released and \<^verbatim>\<open>commitSeq\<close> is their number; the worker past
  the loop is the last that passed.
\<close>

definition gateOk :: "Batcher \<Rightarrow> bool" where
  "gateOk \<sigma> =
     (passedSeqs (history \<sigma>) = map word_of_nat [0..<length (passedSeqs (history \<sigma>))]
      \<and> ((\<forall>w < length (workers \<sigma>). inSection (workers \<sigma> ! w) = None) \<longrightarrow>
            unlockedSeqs (history \<sigma>) = passedSeqs (history \<sigma>)
            \<and> commitSeq \<sigma> = word_of_nat (length (passedSeqs (history \<sigma>))))
      \<and> (\<forall>w < length (workers \<sigma>). \<forall>s inc. inSection (workers \<sigma> ! w) = Some (s, inc) \<longrightarrow>
            (\<exists>p1 p2. history \<sigma> = p1 @ Passed w s # p2 \<and> quiet p2
                      \<and> unlockedSeqs p1 = passedSeqs p1)
            \<and> commitSeq \<sigma> = (if inc then s + 1 else s)))"

definition gateInv :: "Batcher \<Rightarrow> bool" where
  "gateInv \<sigma> = (lockOk \<sigma> \<and> histOk (history \<sigma>) \<and> gateOk \<sigma>)"

text \<open>
  The sealed batches on their way to a commit, and: a batch passes the gate only after
  a batch of its sequence number has been sealed.
\<close>

definition inflight :: "Batcher \<Rightarrow> Batch set" where
  "inflight \<sigma> = set (sending \<sigma>) \<union> set (fullBatches \<sigma>) \<union> held (workers \<sigma>)"

definition passAfterSeal :: "action list \<Rightarrow> bool" where
  "passAfterSeal h =
     (\<forall>pre w S post. h = pre @ Passed w S # post \<longrightarrow> S \<in> seq ` set (sealedBatches pre))"

definition sealInv :: "Batcher \<Rightarrow> bool" where
  "sealInv \<sigma> =
     ((\<forall>b \<in> inflight \<sigma>. seq b \<in> seq ` set (sealedBatches (history \<sigma>)))
      \<and> passAfterSeal (history \<sigma>))"

text \<open>
  The number of batches in the channels, in flight, in the open slot and with the
  workers stays \<^verbatim>\<open>Workers\<close>.
\<close>

definition holds :: "worker \<Rightarrow> bool" where
  "holds p = (heldBatch p \<noteq> None)"

definition poolSize :: "Batcher \<Rightarrow> nat" where
  "poolSize \<sigma> = length (freeBatches \<sigma>) + length (fullBatches \<sigma>) + length (sending \<sigma>)
                 + (case batch \<sigma> of None \<Rightarrow> 0 | Some b \<Rightarrow> 1)
                 + length (filter holds (workers \<sigma>))"

definition poolInv :: "Batcher \<Rightarrow> bool" where
  "poolInv \<sigma> = (0 \<le> Workers (opts \<sigma>) \<and> poolSize \<sigma> = nat (Workers (opts \<sigma>))
                 \<and> length (workers \<sigma>) = nat (Workers (opts \<sigma>)))"

text \<open>
  The actions of one worker. What a worker has done in its current call of
  \<^verbatim>\<open>commitBatch\<close> is fixed by the statement it has reached: the call with the batch
  (the batch it holds, with the events it took from it), the exit from the wait loop,
  the increment, one commit for each event already passed by the loop, the release. A
  complete call ends with the send of the batch, which then carries the slice the
  worker held before.
\<close>

fun byWorker :: "nat \<Rightarrow> action \<Rightarrow> bool" where
  "byWorker w (Sealed b) = False"
| "byWorker w (Called v b) = (v = w)"
| "byWorker w (Passed v s) = (v = w)"
| "byWorker w (Advanced v s) = (v = w)"
| "byWorker w (Committed v s e) = (v = w)"
| "byWorker w (Unlocked v s) = (v = w)"
| "byWorker w (Freed v b) = (v = w)"

fun progress :: "nat \<Rightarrow> worker \<Rightarrow> action list" where
  "progress w (Idle es) = []"
| "progress w (AtLock b es) = [Called w (b\<lparr>events := es\<rparr>)]"
| "progress w (AtCheck b es) = [Called w (b\<lparr>events := es\<rparr>)]"
| "progress w (InWait b es) = [Called w (b\<lparr>events := es\<rparr>)]"
| "progress w (AtIncr b es) = [Called w (b\<lparr>events := es\<rparr>), Passed w (seq b)]"
| "progress w (AtCommit b es rest) =
     [Called w (b\<lparr>events := es\<rparr>), Passed w (seq b), Advanced w (seq b + 1)]
     @ map (Committed w (seq b)) (take (length es - length rest) es)"
| "progress w (AtUnlock b es) =
     [Called w (b\<lparr>events := es\<rparr>), Passed w (seq b), Advanced w (seq b + 1)]
     @ map (Committed w (seq b)) es"
| "progress w (AtSend b es) =
     [Called w (b\<lparr>events := es\<rparr>), Passed w (seq b), Advanced w (seq b + 1)]
     @ map (Committed w (seq b)) es @ [Unlocked w (seq b)]"

definition callOf :: "nat \<Rightarrow> Batch \<times> Event list \<Rightarrow> action list" where
  "callOf w = (\<lambda>(B, es0).
     [Called w B, Passed w (seq B), Advanced w (seq B + 1)]
     @ map (Committed w (seq B)) (events B)
     @ [Unlocked w (seq B), Freed w (B\<lparr>events := es0\<rparr>)])"

fun toCommit :: "worker \<Rightarrow> bool" where
  "toCommit (AtCommit b es rest) = (\<exists>n \<le> length es. rest = drop n es)"
| "toCommit _ = True"

definition workerOk :: "nat \<Rightarrow> worker \<Rightarrow> action list \<Rightarrow> bool" where
  "workerOk w p h =
     (toCommit p
      \<and> (\<exists>calls. filter (byWorker w) h = concat (map (callOf w) calls) @ progress w p))"

definition callsOk :: "Batcher \<Rightarrow> bool" where
  "callsOk \<sigma> = (\<forall>w < length (workers \<sigma>). workerOk w (workers \<sigma> ! w) (history \<sigma>))"

text \<open>
  The readiness predicate in the words of the specification.
\<close>

definition readiness :: "Batch \<Rightarrow> int \<Rightarrow> bool" where
  "readiness b now =
     ((0 < maxSizeCount b \<and> maxSizeCount b \<le> int (length (events b)))
      \<or> (0 < maxSizeBytes b \<and> maxSizeBytes b \<le> eventsSize b)
      \<or> (0 < length (events b) \<and> timeout b < now - startTime b))"


text \<open>
  No wake-up is lost: while a worker is parked in \<^verbatim>\<open>cond.Wait\<close> although
  \<^verbatim>\<open>commitSeq\<close> has reached the number of its batch, another worker is in the loop
  of commits, before its broadcast.
\<close>

definition wakeOk :: "Batcher \<Rightarrow> bool" where
  "wakeOk \<sigma> =
     (\<forall>v < length (workers \<sigma>). \<forall>b es. workers \<sigma> ! v = InWait b es \<and> commitSeq \<sigma> = seq b \<longrightarrow>
        (\<exists>u < length (workers \<sigma>). \<exists>b' es' rest. workers \<sigma> ! u = AtCommit b' es' rest))"

subsection \<open>Sample runs\<close>

text \<open>
  One worker, a count limit of 2: two events are added, the batch is sealed and delivered.
\<close>

definition os1 :: BatcherOptions where
  "os1 = \<lparr>Workers = 1, BatchSizeCount = 2, BatchSizeBytes = 0, FlushTimeout = 5\<rparr>"

definition fresh1 :: Batch where
  "fresh1 = \<lparr>events = [], iteratorIndex = -1, eventsSize = 0, seq = 0, timeout = 5,
     startTime = 0, maxSizeCount = 2, maxSizeBytes = 0\<rparr>"

definition start1 :: Batcher where
  "start1 = \<lparr>opts = os1, batch = None, freeBatches = [fresh1], fullBatches = [],
     sending = [], outSeq = 0, commitSeq = 0, seqMu = None, workers = [Idle []],
     history = []\<rparr>"

definition sealed1 :: Batch where
  "sealed1 = \<lparr>events = [ev 0 3 False, ev 1 4 True], iteratorIndex = -1, eventsSize = 7,
     seq = 0, timeout = 5, startTime = 1, maxSizeCount = 2, maxSizeBytes = 0\<rparr>"

definition queued1 :: Batcher where
  "queued1 = \<lparr>opts = os1, batch = None, freeBatches = [], fullBatches = [sealed1],
     sending = [], outSeq = 1, commitSeq = 0, seqMu = None, workers = [Idle []],
     history = [Sealed sealed1]\<rparr>"

text \<open>
  Scenario S4 of the specification: two workers, a count limit of 1, two batches.
\<close>

definition os2 :: BatcherOptions where
  "os2 = \<lparr>Workers = 2, BatchSizeCount = 1, BatchSizeBytes = 0, FlushTimeout = 5\<rparr>"

definition fresh2 :: Batch where
  "fresh2 = \<lparr>events = [], iteratorIndex = -1, eventsSize = 0, seq = 0, timeout = 5,
     startTime = 0, maxSizeCount = 1, maxSizeBytes = 0\<rparr>"

definition start2 :: Batcher where
  "start2 = \<lparr>opts = os2, batch = None, freeBatches = [fresh2, fresh2], fullBatches = [],
     sending = [], outSeq = 0, commitSeq = 0, seqMu = None, workers = [Idle [], Idle []],
     history = []\<rparr>"

definition first2 :: Batch where
  "first2 = \<lparr>events = [ev 0 1 False], iteratorIndex = -1, eventsSize = 1,
     seq = 0, timeout = 5, startTime = 1, maxSizeCount = 1, maxSizeBytes = 0\<rparr>"

definition second2 :: Batch where
  "second2 = \<lparr>events = [ev 1 1 True], iteratorIndex = -1, eventsSize = 1,
     seq = 1, timeout = 5, startTime = 2, maxSizeCount = 1, maxSizeBytes = 0\<rparr>"

definition sealed2 :: Batcher where
  "sealed2 = \<lparr>opts = os2, batch = None, freeBatches = [], fullBatches = [],
     sending = [first2, second2], outSeq = 2, commitSeq = 0, seqMu = None,
     workers = [Idle [], Idle []], history = [Sealed first2, Sealed second2]\<rparr>"

text \<open>
  The second batch is delivered first, and worker 0, which holds it, reaches the gate
  before worker 1.
\<close>

definition overtaking :: "label list" where
  "overtaking = [LSend 1, LSend 0, LRecv 0 7, LRecv 1 8, LStep 0, LStep 0,
     LStep 1, LStep 1, LStep 1, LStep 1, LStep 1, LStep 1, LStep 1,
     LStep 0, LStep 0, LStep 0, LStep 0, LStep 0, LStep 0, LStep 0]"

definition atCheck2 :: Batcher where
  "atCheck2 = \<lparr>opts = os2, batch = None, freeBatches = [], fullBatches = [first2],
     sending = [], outSeq = 2, commitSeq = 0, seqMu = Some 0,
     workers = [AtCheck (second2\<lparr>iteratorIndex := 7, events := []\<rparr>) [ev 1 1 True], Idle []],
     history = [Sealed first2, Sealed second2, Called 0 (second2\<lparr>iteratorIndex := 7\<rparr>)]\<rparr>"

definition done2 :: Batcher where
  "done2 = \<lparr>opts = os2, batch = None,
     freeBatches = [first2\<lparr>iteratorIndex := 8, events := []\<rparr>,
                    second2\<lparr>iteratorIndex := 7, events := []\<rparr>],
     fullBatches = [], sending = [], outSeq = 2, commitSeq = 2, seqMu = None,
     workers = [Idle [ev 1 1 True], Idle [ev 0 1 False]],
     history = [Sealed first2, Sealed second2,
                Called 0 (second2\<lparr>iteratorIndex := 7\<rparr>),
                Called 1 (first2\<lparr>iteratorIndex := 8\<rparr>),
                Passed 1 0, Advanced 1 1, Committed 1 0 (ev 0 1 False), Unlocked 1 0,
                Freed 1 (first2\<lparr>iteratorIndex := 8, events := []\<rparr>),
                Passed 0 1, Advanced 0 2, Committed 0 1 (ev 1 1 True), Unlocked 0 1,
                Freed 0 (second2\<lparr>iteratorIndex := 7, events := []\<rparr>)]\<rparr>"

text \<open>
  On the way: worker 0 is parked in \<^verbatim>\<open>cond.Wait\<close> with the second batch, worker 1
  has left the wait loop with the first (\<open>atIncr2\<close>) and then incremented
  \<^verbatim>\<open>commitSeq\<close> (\<open>parked2\<close>).
\<close>

definition atIncr2 :: Batcher where
  "atIncr2 = \<lparr>opts = os2, batch = None, freeBatches = [], fullBatches = [],
     sending = [], outSeq = 2, commitSeq = 0, seqMu = Some 1,
     workers = [InWait (second2\<lparr>iteratorIndex := 7, events := []\<rparr>) [ev 1 1 True],
                AtIncr (first2\<lparr>iteratorIndex := 8, events := []\<rparr>) [ev 0 1 False]],
     history = [Sealed first2, Sealed second2,
                Called 0 (second2\<lparr>iteratorIndex := 7\<rparr>),
                Called 1 (first2\<lparr>iteratorIndex := 8\<rparr>), Passed 1 0]\<rparr>"

definition parked2 :: Batcher where
  "parked2 = \<lparr>opts = os2, batch = None, freeBatches = [], fullBatches = [],
     sending = [], outSeq = 2, commitSeq = 1, seqMu = Some 1,
     workers = [InWait (second2\<lparr>iteratorIndex := 7, events := []\<rparr>) [ev 1 1 True],
                AtCommit (first2\<lparr>iteratorIndex := 8, events := []\<rparr>) [ev 0 1 False]
                  [ev 0 1 False]],
     history = [Sealed first2, Sealed second2,
                Called 0 (second2\<lparr>iteratorIndex := 7\<rparr>),
                Called 1 (first2\<lparr>iteratorIndex := 8\<rparr>), Passed 1 0, Advanced 1 1]\<rparr>"

text \<open>
  Scenario S2 of the specification: a byte limit of 10 and events of size 4.
\<close>

definition os3 :: BatcherOptions where
  "os3 = \<lparr>Workers = 2, BatchSizeCount = 0, BatchSizeBytes = 10, FlushTimeout = 1000\<rparr>"

definition fresh3 :: Batch where
  "fresh3 = \<lparr>events = [], iteratorIndex = -1, eventsSize = 0, seq = 0, timeout = 1000,
     startTime = 0, maxSizeCount = 0, maxSizeBytes = 10\<rparr>"

definition start3 :: Batcher where
  "start3 = \<lparr>opts = os3, batch = None, freeBatches = [fresh3, fresh3], fullBatches = [],
     sending = [], outSeq = 0, commitSeq = 0, seqMu = None, workers = [Idle [], Idle []],
     history = []\<rparr>"

definition sealed3 :: Batch where
  "sealed3 = \<lparr>events = [ev 0 4 False, ev 1 4 False, ev 2 4 False], iteratorIndex = -1,
     eventsSize = 12, seq = 0, timeout = 1000, startTime = 1, maxSizeCount = 0,
     maxSizeBytes = 10\<rparr>"

definition after3 :: Batcher where
  "after3 = \<lparr>opts = os3, batch = None, freeBatches = [fresh3], fullBatches = [],
     sending = [sealed3], outSeq = 1, commitSeq = 0, seqMu = None,
     workers = [Idle [], Idle []], history = [Sealed sealed3]\<rparr>"

text \<open>
  The same batcher later: a second batch of one event of size 10 has been sealed, both
  batches have been committed, and both are back in \<^verbatim>\<open>freeBatches\<close>, the second
  one first. They hold no events and keep the byte totals 10 and 12 of their last use.
\<close>

definition second3 :: Batch where
  "second3 = \<lparr>events = [ev 3 10 False], iteratorIndex = -1, eventsSize = 10, seq = 1,
     timeout = 1000, startTime = 4, maxSizeCount = 0, maxSizeBytes = 10\<rparr>"

definition sched3 :: "label list" where
  "sched3 = [LAdd (ev 0 4 False) 1 1, LAdd (ev 1 4 False) 2 2, LAdd (ev 2 4 False) 3 3,
     LAdd (ev 3 10 False) 4 4, LSend 0, LSend 0, LRecv 0 3, LRecv 1 1,
     LStep 0, LStep 0, LStep 0, LStep 0, LStep 0, LStep 0, LStep 0, LStep 0,
     LStep 1, LStep 1, LStep 1, LStep 1, LStep 1, LStep 1, LStep 1, LStep 0]"

definition recycled3 :: Batcher where
  "recycled3 = \<lparr>opts = os3, batch = None,
     freeBatches = [second3\<lparr>iteratorIndex := 1, events := []\<rparr>,
                    sealed3\<lparr>iteratorIndex := 3, events := []\<rparr>],
     fullBatches = [], sending = [], outSeq = 2, commitSeq = 2, seqMu = None,
     workers = [Idle [ev 0 4 False, ev 1 4 False, ev 2 4 False], Idle [ev 3 10 False]],
     history = [Sealed sealed3, Sealed second3,
                Called 0 (sealed3\<lparr>iteratorIndex := 3\<rparr>),
                Called 1 (second3\<lparr>iteratorIndex := 1\<rparr>),
                Passed 0 0, Advanced 0 1, Committed 0 0 (ev 0 4 False),
                Committed 0 0 (ev 1 4 False), Committed 0 0 (ev 2 4 False), Unlocked 0 0,
                Passed 1 1, Advanced 1 2, Committed 1 1 (ev 3 10 False), Unlocked 1 1,
                Freed 1 (second3\<lparr>iteratorIndex := 1, events := []\<rparr>),
                Freed 0 (sealed3\<lparr>iteratorIndex := 3, events := []\<rparr>)]\<rparr>"

section \<open>Properties of a batch\<close>

subsection \<open>The iterator\<close>

lemma skipLoop_spec:
  "0 \<le> i \<Longrightarrow> \<exists>j. skipLoop evs i = Inr j \<and> i \<le> j
      \<and> (i \<le> int (length evs) \<longrightarrow> j \<le> int (length evs))
      \<and> (int (length evs) \<le> i \<longrightarrow> j = i)
      \<and> (j < int (length evs) \<longrightarrow> \<not> IsChildParentKind (evs ! nat j))
      \<and> filter nonStructural (drop (nat i) evs) = filter nonStructural (drop (nat j) evs)"
proof (induction evs i rule: skipLoop.induct)
  case (1 evs i)
  show ?case
  proof (cases "i < int (length evs)")
    case False
    then show ?thesis by (subst skipLoop.simps) simp
  next
    case inr: True
    show ?thesis
    proof (cases "IsChildParentKind (evs ! nat i)")
      case False
      with inr 1(2) show ?thesis by (subst skipLoop.simps) simp
    next
      case True
      from 1(1) [OF inr _ True] 1(2)
      obtain j where j: "skipLoop evs (i + 1) = Inr j" "i + 1 \<le> j"
        "j \<le> int (length evs)"
        "j < int (length evs) \<longrightarrow> \<not> IsChildParentKind (evs ! nat j)"
        "filter nonStructural (drop (nat (i + 1)) evs) = filter nonStructural (drop (nat j) evs)"
        using inr by auto
      have "drop (nat i) evs = evs ! nat i # drop (nat (i + 1)) evs"
        using inr 1(2) by (simp add: Cons_nth_drop_Suc nat_add_distrib)
      with True j inr 1(2) show ?thesis
        by (subst skipLoop.simps) (simp add: nonStructural_def)
    qed
  qed
qed

lemma iterate_from:
  "-1 \<le> iteratorIndex b \<Longrightarrow>
   iterate b = Inr (filter nonStructural (drop (nat (iteratorIndex b + 1)) (events b)),
                    b\<lparr>iteratorIndex := max (iteratorIndex b + 1) (int (length (events b)))\<rparr>)"
proof (induction b rule: iterate.induct)
  case (1 b)
  let ?i = "iteratorIndex b + 1"
  let ?n = "int (length (events b))"
  from 1(2) have i0: "0 \<le> ?i" by simp
  from skipLoop_spec [OF i0, of "events b"]
  obtain j where j: "skipLoop (events b) ?i = Inr j" "?i \<le> j"
    "?i \<le> ?n \<longrightarrow> j \<le> ?n" "?n \<le> ?i \<longrightarrow> j = ?i"
    "j < ?n \<longrightarrow> \<not> IsChildParentKind (events b ! nat j)"
    "filter nonStructural (drop (nat ?i) (events b)) = filter nonStructural (drop (nat j) (events b))"
    by blast
  let ?b' = "b\<lparr>iteratorIndex := j\<rparr>"
  have nx: "Next b = Inr (j < ?n, ?b')" using j(1) by (simp add: Next_def)
  show ?case
  proof (cases "j < ?n")
    case False
    with j have "j = max ?i ?n" by auto
    with False nx j(6) show ?thesis by (subst iterate.simps) simp
  next
    case True
    have v: "Value ?b' = Inr (events b ! nat j)" using True j(2) i0 by (simp add: Value_def)
    have ih: "iterate ?b' = Inr (filter nonStructural (drop (nat (j + 1)) (events b)),
                ?b'\<lparr>iteratorIndex := max (j + 1) ?n\<rparr>)"
      using 1(1) [OF nx refl True v] j(2) i0 by simp
    have d: "drop (nat j) (events b) = events b ! nat j # drop (nat (j + 1)) (events b)"
      using True j(2) i0 by (simp add: Cons_nth_drop_Suc nat_add_distrib)
    have m: "max (j + 1) ?n = max ?i ?n" using True j(2) by simp
    show ?thesis
      using nx True v ih j(5) j(6) d m
      by (subst iterate.simps) (simp add: nonStructural_def)
  qed
qed

lemma events_foldl_append:
  "events (foldl append_event b es) = events b @ es"
  by (induction es arbitrary: b) (simp_all add: append_event_def)

lemma iteratorIndex_foldl_append:
  "iteratorIndex (foldl append_event b es) = iteratorIndex b"
  by (induction es arbitrary: b) (simp_all add: append_event_def)

text \<open>
  C7: iterating a batch with \<^verbatim>\<open>Next\<close>/\<^verbatim>\<open>Value\<close> from the state
  that \<^verbatim>\<open>reset\<close> leaves (cursor \<open>-1\<close>), after the events \<open>es\<close> were appended or
  handed to \<^verbatim>\<open>NewPreparedBatch\<close>, yields exactly the events of \<open>es\<close> that are not
  structural, in their order, and does not panic; and \<^verbatim>\<open>Next\<close> returns false exactly
  when the cursor it leaves is at or past the end of the events.
\<close>

theorem iterate_yields_non_structural:
  "iterate (foldl append_event (reset b now) es)
     = Inr (filter nonStructural es,
            (foldl append_event (reset b now) es)\<lparr>iteratorIndex := int (length es)\<rparr>)
   \<and> iterate (NewPreparedBatch es now)
     = Inr (filter nonStructural es, (NewPreparedBatch es now)\<lparr>iteratorIndex := int (length es)\<rparr>)
   \<and> (\<forall>b0 r b'. Next b0 = Inr (r, b') \<longrightarrow>
         (\<not> r) = (int (length (events b')) \<le> iteratorIndex b'))"
proof (intro conjI allI impI)
  let ?b = "foldl append_event (reset b now) es"
  have "iteratorIndex ?b = -1" "events ?b = es"
    by (simp_all add: iteratorIndex_foldl_append events_foldl_append reset_def)
  then show "iterate ?b = Inr (filter nonStructural es, ?b\<lparr>iteratorIndex := int (length es)\<rparr>)"
    using iterate_from [of ?b] by simp
next
  let ?b = "NewPreparedBatch es now"
  have "iteratorIndex ?b = -1" "events ?b = es"
    by (simp_all add: NewPreparedBatch_def reset_def)
  then show "iterate ?b = Inr (filter nonStructural es, ?b\<lparr>iteratorIndex := int (length es)\<rparr>)"
    using iterate_from [of ?b] by simp
next
  fix b0 r b'
  assume "Next b0 = Inr (r, b')"
  then show "(\<not> r) = (int (length (events b')) \<le> iteratorIndex b')"
    by (auto simp: Next_def split: sum.splits)
qed

text \<open>
  Witness of C7 (scenario S6 of the spec: data, structural, data).
\<close>

theorem iterate_yields_non_structural_witness:
  "iterate (foldl append_event (reset batch2 7) [ev 0 1 False, ev 1 1 True, ev 2 1 False])
     = Inr ([ev 0 1 False, ev 2 1 False],
            (foldl append_event (reset batch2 7) [ev 0 1 False, ev 1 1 True, ev 2 1 False])
              \<lparr>iteratorIndex := 3\<rparr>)
   \<and> Next batch2 = Inr (False, batch2\<lparr>iteratorIndex := 0\<rparr>)
   \<and> int (length (events (batch2\<lparr>iteratorIndex := 0\<rparr>))) \<le> iteratorIndex (batch2\<lparr>iteratorIndex := 0\<rparr>)"
proof -
  have n: "Next batch2 = Inr (False, batch2\<lparr>iteratorIndex := 0\<rparr>)"
    by (simp add: Next_def skipLoop.simps batch2_def)
  have e: "events batch2 = []" by (simp add: batch2_def)
  from iterate_yields_non_structural [of batch2 7 "[ev 0 1 False, ev 1 1 True, ev 2 1 False]"] n e
  show ?thesis by (simp add: nonStructural_def ev_def)
qed

subsection \<open>What the operations on a batch preserve\<close>

lemma skipLoop_neg: "i < 0 \<Longrightarrow> skipLoop evs i = Inl IndexOutOfRange"
  by (subst skipLoop.simps) simp

lemma Next_cases:
  "cursorLow b \<Longrightarrow> \<exists>j. Next b = Inr (j < int (length (events b)), b\<lparr>iteratorIndex := j\<rparr>)
      \<and> iteratorIndex b + 1 \<le> j
      \<and> (iteratorIndex b + 1 \<le> int (length (events b)) \<longrightarrow> j \<le> int (length (events b)))
      \<and> (int (length (events b)) \<le> iteratorIndex b + 1 \<longrightarrow> j = iteratorIndex b + 1)
      \<and> (j < int (length (events b)) \<longrightarrow> \<not> IsChildParentKind (events b ! nat j))"
proof -
  assume "cursorLow b"
  then have "0 \<le> iteratorIndex b + 1" by (simp add: cursorLow_def)
  from skipLoop_spec [OF this, of "events b"] show ?thesis
    by (auto simp: Next_def)
qed

lemma Next_True_cursorLow:
  assumes "Next b = Inr (r, b')"
  shows "cursorLow b"
proof (rule ccontr)
  assume "\<not> cursorLow b"
  then have "iteratorIndex b + 1 < 0" by (simp add: cursorLow_def)
  from skipLoop_neg [OF this] assms show False by (simp add: Next_def)
qed

lemma applyOp_limits:
  "applyOp b x = Inr b' \<Longrightarrow> maxSizeCount b' = maxSizeCount b \<and> maxSizeBytes b' = maxSizeBytes b"
  by (cases x) (auto simp: reset_def append_event_def Next_def split: sum.splits)

lemma applyOps_limits:
  "applyOps b xs = Inr b' \<Longrightarrow> maxSizeCount b' = maxSizeCount b \<and> maxSizeBytes b' = maxSizeBytes b"
proof (induction xs arbitrary: b)
  case Nil
  then show ?case by simp
next
  case (Cons x xs)
  then show ?case by (auto split: sum.splits dest!: applyOp_limits)
qed

lemma applyOp_sizeSum: "sizeSum b \<Longrightarrow> applyOp b x = Inr b' \<Longrightarrow> sizeSum b'"
  by (cases x) (auto simp: sizeSum_def reset_def append_event_def Next_def split: sum.splits)

lemma applyOps_sizeSum: "sizeSum b \<Longrightarrow> applyOps b xs = Inr b' \<Longrightarrow> sizeSum b'"
proof (induction xs arbitrary: b)
  case Nil
  then show ?case by simp
next
  case (Cons x xs)
  then show ?case by (auto split: sum.splits dest: applyOp_sizeSum)
qed

lemma applyOp_cursorLow: "cursorLow b \<Longrightarrow> \<exists>b'. applyOp b x = Inr b' \<and> cursorLow b'"
proof (cases x)
  case OpNext
  assume "cursorLow b"
  from Next_cases [OF this] obtain j where
    "Next b = Inr (j < int (length (events b)), b\<lparr>iteratorIndex := j\<rparr>)" "iteratorIndex b + 1 \<le> j"
    by blast
  with OpNext \<open>cursorLow b\<close> show ?thesis by (simp add: cursorLow_def)
qed (simp_all add: cursorLow_def reset_def append_event_def)

lemma applyOps_cursorLow: "cursorLow b \<Longrightarrow> \<exists>b'. applyOps b xs = Inr b' \<and> cursorLow b'"
proof (induction xs arbitrary: b)
  case Nil
  then show ?case by simp
next
  case (Cons x xs)
  from applyOp_cursorLow [OF Cons.prems, of x] obtain b1 where
    "applyOp b x = Inr b1" "cursorLow b1" by blast
  with Cons.IH [of b1] show ?case by simp
qed

lemma newBatch_Inr:
  "newBatch lim c m t now = Inr b \<Longrightarrow>
     b = \<lparr>events = [], iteratorIndex = -1, eventsSize = 0, seq = 0, timeout = t,
          startTime = now, maxSizeCount = c, maxSizeBytes = m\<rparr>
     \<and> 0 \<le> c \<and> 0 \<le> m \<and> (0 < c \<or> 0 < m)"
  by (auto simp: newBatch_def makeEvents_def reset_def zeroBatch_def split: if_splits)

lemma newBatch_facts:
  "newBatch lim c m t now = Inr b \<Longrightarrow> limitsSet b \<and> sizeSum b \<and> cursorLow b"
  by (drule newBatch_Inr) (auto simp: limitsSet_def sizeSum_def cursorLow_def)

lemma NewPreparedBatch_facts:
  "limitsOk (NewPreparedBatch evs now) \<and> cursorLow (NewPreparedBatch evs now)"
  by (simp add: NewPreparedBatch_def reset_def zeroBatch_def limitsOk_def cursorLow_def)

subsection \<open>Readiness\<close>

lemma isReady_limitsOk:
  "limitsOk b \<Longrightarrow>
   isReady b now =
     ((0 < maxSizeCount b \<and> maxSizeCount b \<le> int (length (events b)))
      \<or> (0 < maxSizeBytes b \<and> maxSizeBytes b \<le> eventsSize b)
      \<or> (0 < length (events b) \<and> timeout b < now - startTime b))"
  by (auto simp: isReady_def limitsOk_def since_def Let_def)

lemma empty_not_ready:
  "limitsSet b \<Longrightarrow> sizeSum b \<Longrightarrow> events b = [] \<Longrightarrow> \<not> isReady b now"
  by (auto simp: isReady_def limitsSet_def sizeSum_def Let_def)

text \<open>
  For a batch built by \<^verbatim>\<open>newBatch\<close> or \<^verbatim>\<open>NewPreparedBatch\<close> and changed by
  reset, append and \<^verbatim>\<open>Next\<close> only, readiness is the predicate of the specification,
  and an empty batch of \<^verbatim>\<open>newBatch\<close> is not ready.
\<close>

lemma isReady_after_ops:
  assumes "newBatch lim c m t now0 = Inr b0 \<or> b0 = NewPreparedBatch evs now0"
    and "applyOps b0 ops = Inr b"
  shows "isReady b now =
           ((0 < maxSizeCount b \<and> maxSizeCount b \<le> int (length (events b)))
            \<or> (0 < maxSizeBytes b \<and> maxSizeBytes b \<le> eventsSize b)
            \<or> (0 < length (events b) \<and> timeout b < now - startTime b))
         \<and> (newBatch lim c m t now0 = Inr b0 \<and> events b = [] \<longrightarrow> \<not> isReady b now)"
proof -
  from assms(1) have "limitsOk b0"
    using newBatch_facts [of lim c m t now0 b0] NewPreparedBatch_facts [of evs now0]
    by (auto simp: limitsOk_def limitsSet_def)
  with applyOps_limits [OF assms(2)] have ok: "limitsOk b" by (simp add: limitsOk_def)
  have "\<not> isReady b now" if nb: "newBatch lim c m t now0 = Inr b0" and e: "events b = []"
  proof -
    from newBatch_facts [OF nb] have "limitsSet b0" "sizeSum b0" by simp_all
    with applyOps_limits [OF assms(2)] applyOps_sizeSum [OF _ assms(2)]
    have "limitsSet b" "sizeSum b" by (simp_all add: limitsSet_def)
    then show ?thesis using e by (rule empty_not_ready)
  qed
  with isReady_limitsOk [OF ok, of now] show ?thesis by blast
qed

subsection \<open>The cursor\<close>

lemma applyOp_cursorIn:
  assumes "cursorIn b" and "x \<noteq> OpNext \<or> iteratorIndex b < int (length (events b))"
    and "applyOp b x = Inr b'"
  shows "cursorIn b'"
proof (cases x)
  case OpNext
  from assms(1) have low: "cursorLow b" by (simp add: cursorIn_def cursorLow_def)
  from Next_cases [OF low] obtain j where
    j: "Next b = Inr (j < int (length (events b)), b\<lparr>iteratorIndex := j\<rparr>)"
       "iteratorIndex b + 1 \<le> j"
       "iteratorIndex b + 1 \<le> int (length (events b)) \<longrightarrow> j \<le> int (length (events b))"
    by blast
  with OpNext assms show ?thesis by (auto simp: cursorIn_def)
next
  case (OpReset now)
  with assms show ?thesis by (auto simp: cursorIn_def reset_def)
next
  case (OpAppend e)
  with assms show ?thesis by (auto simp: cursorIn_def append_event_def)
qed

lemma applyOps_cursorIn:
  "cursorIn b \<Longrightarrow> guarded b xs \<Longrightarrow> applyOps b xs = Inr b' \<Longrightarrow> cursorIn b'"
proof (induction xs arbitrary: b)
  case Nil
  then show ?case by simp
next
  case (Cons x xs)
  from Cons.prems(3) obtain b1 where b1: "applyOp b x = Inr b1" "applyOps b1 xs = Inr b'"
    by (auto split: sum.splits)
  from Cons.prems(2) b1(1) have g: "x \<noteq> OpNext \<or> iteratorIndex b < int (length (events b))"
    "guarded b1 xs" by simp_all
  from applyOp_cursorIn [OF Cons.prems(1) g(1) b1(1)] have "cursorIn b1" .
  from Cons.IH [OF this g(2) b1(2)] show ?case .
qed

text \<open>
  A call of \<^verbatim>\<open>Next\<close> with the cursor at or past the end returns false and still
  increments the cursor.
\<close>

lemma Next_past_end:
  "cursorLow b \<Longrightarrow> int (length (events b)) \<le> iteratorIndex b \<Longrightarrow>
     Next b = Inr (False, b\<lparr>iteratorIndex := iteratorIndex b + 1\<rparr>)"
  using Next_cases [of b] by auto

text \<open>
  C9, as stated, fails: on the empty batch of \<^verbatim>\<open>newBatch(1, 0, 0)\<close> two calls of
  \<^verbatim>\<open>Next\<close> leave the cursor at 1, above the number of events, 0.
\<close>

theorem cursor_exceeds_length_counterexample:
  "newBatch 1000 1 0 0 0 = Inr (reset (zeroBatch\<lparr>maxSizeCount := 1\<rparr>) 0)
   \<and> applyOps (reset (zeroBatch\<lparr>maxSizeCount := 1\<rparr>) 0) [OpNext, OpNext]
       = Inr ((reset (zeroBatch\<lparr>maxSizeCount := 1\<rparr>) 0)\<lparr>iteratorIndex := 1\<rparr>)
   \<and> \<not> iteratorIndex ((reset (zeroBatch\<lparr>maxSizeCount := 1\<rparr>) 0)\<lparr>iteratorIndex := 1\<rparr>)
         \<le> int (length (events ((reset (zeroBatch\<lparr>maxSizeCount := 1\<rparr>) 0)\<lparr>iteratorIndex := 1\<rparr>)))"
  by (simp add: newBatch_def makeEvents_def reset_def zeroBatch_def Next_def skipLoop.simps)

text \<open>
  C9 (amended): for every batch built by \<^verbatim>\<open>newBatch\<close> or
  \<^verbatim>\<open>NewPreparedBatch\<close> and every sequence of reset, append and \<^verbatim>\<open>Next\<close>, the
  operations do not panic and the cursor is at least \<open>-1\<close>; the cursor is at most the
  number of events as long as \<^verbatim>\<open>Next\<close> is only called while the cursor is before the
  end (a guarded run).
\<close>

theorem cursor_bounds:
  assumes "newBatch lim c m t now0 = Inr b0 \<or> b0 = NewPreparedBatch evs now0"
  shows "(\<exists>b. applyOps b0 ops = Inr b \<and> -1 \<le> iteratorIndex b)
         \<and> (guarded b0 ops \<longrightarrow>
              (\<exists>b. applyOps b0 ops = Inr b \<and> -1 \<le> iteratorIndex b
                   \<and> iteratorIndex b \<le> int (length (events b))))"
proof -
  from assms have "cursorLow b0 \<and> cursorIn b0"
    using newBatch_Inr [of lim c m t now0 b0]
    by (auto simp: cursorLow_def cursorIn_def NewPreparedBatch_def reset_def zeroBatch_def)
  then have low: "cursorLow b0" and inb: "cursorIn b0" by simp_all
  from applyOps_cursorLow [OF low, of ops] obtain b where
    b: "applyOps b0 ops = Inr b" "cursorLow b" by blast
  have "cursorIn b" if "guarded b0 ops"
    using applyOps_cursorIn [OF inb that b(1)] .
  with b show ?thesis by (auto simp: cursorLow_def cursorIn_def)
qed

text \<open>
  Witness of C9 (amended).
\<close>

theorem cursor_bounds_witness:
  "newBatch 1000 2 0 5 0 = Inr batch2
   \<and> guarded batch2 [OpAppend (ev 0 3 False), OpNext, OpNext, OpReset 9, OpNext]
   \<and> applyOps batch2 [OpAppend (ev 0 3 False), OpNext, OpNext, OpReset 9, OpNext]
        = Inr (batch2\<lparr>iteratorIndex := 0, startTime := 9\<rparr>)
   \<and> -1 \<le> iteratorIndex (batch2\<lparr>iteratorIndex := 0, startTime := 9\<rparr>)
   \<and> iteratorIndex (batch2\<lparr>iteratorIndex := 0, startTime := 9\<rparr>)
        \<le> int (length (events (batch2\<lparr>iteratorIndex := 0, startTime := 9\<rparr>)))"
proof -
  have nb: "newBatch 1000 2 0 5 0 = Inr batch2"
    by (simp add: newBatch_def makeEvents_def reset_def zeroBatch_def batch2_def)
  have a: "applyOps batch2 [OpAppend (ev 0 3 False), OpNext, OpNext, OpReset 9, OpNext]
        = Inr (batch2\<lparr>iteratorIndex := 0, startTime := 9\<rparr>)"
    by (simp add: append_event_def reset_def Next_def skipLoop.simps batch2_def ev_def)
  have g: "guarded batch2 [OpAppend (ev 0 3 False), OpNext, OpNext, OpReset 9, OpNext]"
    by (simp add: append_event_def reset_def Next_def skipLoop.simps batch2_def ev_def)
  from cursor_bounds [OF disjI1 [OF nb], of "[OpAppend (ev 0 3 False), OpNext, OpNext, OpReset 9, OpNext]"]
  show ?thesis using nb a g by simp
qed

text \<open>
  C10: \<^verbatim>\<open>Value\<close> reads \<^verbatim>\<open>events[cursor]\<close> unchecked. In the batch that a
  \<^verbatim>\<open>Next\<close> returning true leaves, the cursor is within the events, \<^verbatim>\<open>Value\<close>
  returns the event there, that event is not structural, and later appends do not change
  it. In the batch that a \<^verbatim>\<open>Next\<close> returning false leaves, in a batch whose cursor
  is \<open>-1\<close> or at or past the end, and right after \<^verbatim>\<open>reset\<close>, the read is out of
  range.
\<close>

theorem Value_after_Next:
  "(Next b = Inr (True, b') \<longrightarrow>
       0 \<le> iteratorIndex b' \<and> iteratorIndex b' < int (length (events b'))
       \<and> Value b' = Inr (events b' ! nat (iteratorIndex b'))
       \<and> \<not> IsChildParentKind (events b' ! nat (iteratorIndex b'))
       \<and> Value (foldl append_event b' es) = Value b')
   \<and> (Next b = Inr (False, b') \<longrightarrow> Value b' = Inl IndexOutOfRange)
   \<and> (iteratorIndex b = -1 \<or> int (length (events b)) \<le> iteratorIndex b
         \<longrightarrow> Value b = Inl IndexOutOfRange)
   \<and> Value (reset b now) = Inl IndexOutOfRange"
proof (intro conjI impI)
  assume nx: "Next b = Inr (True, b')"
  from Next_cases [OF Next_True_cursorLow [OF nx]] nx
  obtain j where j: "b' = b\<lparr>iteratorIndex := j\<rparr>" "j < int (length (events b))"
    "iteratorIndex b + 1 \<le> j" "\<not> IsChildParentKind (events b ! nat j)"
    by auto
  from Next_True_cursorLow [OF nx] j(3) have j0: "0 \<le> j" by (simp add: cursorLow_def)
  show "0 \<le> iteratorIndex b'" using j0 j(1) by simp
  show "iteratorIndex b' < int (length (events b'))" using j by simp
  show "Value b' = Inr (events b' ! nat (iteratorIndex b'))" using j j0 by (simp add: Value_def)
  show "\<not> IsChildParentKind (events b' ! nat (iteratorIndex b'))" using j by simp
  show "Value (foldl append_event b' es) = Value b'"
    using j j0
    by (auto simp: Value_def events_foldl_append iteratorIndex_foldl_append nth_append)
next
  assume nx: "Next b = Inr (False, b')"
  from Next_cases [OF Next_True_cursorLow [OF nx]] nx
  show "Value b' = Inl IndexOutOfRange" by (auto simp: Value_def)
next
  assume "iteratorIndex b = -1 \<or> int (length (events b)) \<le> iteratorIndex b"
  then show "Value b = Inl IndexOutOfRange" by (auto simp: Value_def)
next
  show "Value (reset b now) = Inl IndexOutOfRange" by (simp add: Value_def reset_def)
qed

text \<open>
  Witness of C10.
\<close>

theorem Value_after_Next_witness:
  "Next (batch2\<lparr>events := [ev 0 3 True, ev 1 4 False]\<rparr>)
     = Inr (True, batch2\<lparr>events := [ev 0 3 True, ev 1 4 False], iteratorIndex := 1\<rparr>)
   \<and> Value (batch2\<lparr>events := [ev 0 3 True, ev 1 4 False], iteratorIndex := 1\<rparr>)
       = Inr (ev 1 4 False)
   \<and> Next (batch2\<lparr>events := [ev 0 3 True, ev 1 4 False], iteratorIndex := 1\<rparr>)
     = Inr (False, batch2\<lparr>events := [ev 0 3 True, ev 1 4 False], iteratorIndex := 2\<rparr>)
   \<and> Value (batch2\<lparr>events := [ev 0 3 True, ev 1 4 False], iteratorIndex := 2\<rparr>)
       = Inl IndexOutOfRange
   \<and> Value batch2 = Inl IndexOutOfRange"
proof -
  let ?b = "batch2\<lparr>events := [ev 0 3 True, ev 1 4 False]\<rparr>"
  let ?b1 = "batch2\<lparr>events := [ev 0 3 True, ev 1 4 False], iteratorIndex := 1\<rparr>"
  let ?b2 = "batch2\<lparr>events := [ev 0 3 True, ev 1 4 False], iteratorIndex := 2\<rparr>"
  have n1: "Next ?b = Inr (True, ?b1)"
    by (simp add: Next_def skipLoop.simps batch2_def ev_def)
  have n2: "Next ?b1 = Inr (False, ?b2)"
    by (simp add: Next_def skipLoop.simps batch2_def ev_def)
  have i: "iteratorIndex batch2 = -1" by (simp add: batch2_def)
  from Value_after_Next [of ?b ?b1 "[]" 0] Value_after_Next [of ?b1 ?b2 "[]" 0]
    Value_after_Next [of batch2 batch2 "[]" 0] n1 n2 i
  show ?thesis by (simp add: batch2_def ev_def)
qed

subsection \<open>Construction\<close>

text \<open>
  C8, as stated, fails for a valid configuration whose count limit is beyond what the
  runtime can allocate: with the bound \<open>2 ^ 45\<close> of a 64-bit Linux target (an address
  space of \<open>2 ^ 48\<close> bytes, 8 bytes for each reference) and the valid limits
  \<^verbatim>\<open>maxSizeCount = 1 << 62\<close>, \<^verbatim>\<open>maxSizeBytes = 0\<close>, \<^verbatim>\<open>newBatch\<close> does not return:
  \<^verbatim>\<open>make\<close> panics.
\<close>

theorem newBatch_large_count_counterexample:
  "newBatch (2 ^ 45) (2 ^ 62) 0 0 0 = Inl CapOutOfRange
   \<and> \<not> ((2 ^ 62 :: int) < 0 \<or> (0 :: int) < 0 \<or> ((2 ^ 62 :: int) = 0 \<and> (0 :: int) = 0))"
  by (simp add: newBatch_def makeEvents_def)

text \<open>
  C8 (amended): \<^verbatim>\<open>newBatch\<close> ends in \<^verbatim>\<open>logger.Fatalf\<close>, and returns no batch,
  exactly when the count limit is negative, the byte limit is negative, or both are zero.
  For every other configuration it returns a batch exactly when the events slice with the
  count limit as its capacity can be allocated, and panics in \<^verbatim>\<open>make\<close> otherwise. It
  fails in no other way.
\<close>

theorem newBatch_outcomes:
  "(\<exists>msg. newBatch lim c m t now = Inl (Fatal msg)) = (c < 0 \<or> m < 0 \<or> (c = 0 \<and> m = 0))
   \<and> (newBatch lim c m t now = Inl CapOutOfRange)
       = (0 \<le> c \<and> 0 \<le> m \<and> (0 < c \<or> 0 < m) \<and> int lim < c)
   \<and> (\<exists>b. newBatch lim c m t now = Inr b)
       = (0 \<le> c \<and> 0 \<le> m \<and> (0 < c \<or> 0 < m) \<and> c \<le> int lim)
   \<and> (newBatch lim c m t now
         = Inr \<lparr>events = [], iteratorIndex = -1, eventsSize = 0, seq = 0, timeout = t,
                startTime = now, maxSizeCount = c, maxSizeBytes = m\<rparr>)
       = (0 \<le> c \<and> 0 \<le> m \<and> (0 < c \<or> 0 < m) \<and> c \<le> int lim)
   \<and> newBatch lim c m t now \<noteq> Inl IndexOutOfRange
   \<and> newBatch lim c m t now \<noteq> Inl ChanSizeOutOfRange"
  by (auto simp: newBatch_def makeEvents_def reset_def zeroBatch_def)

text \<open>
  Witness of C8 (amended).
\<close>

theorem newBatch_outcomes_witness:
  "newBatch 1000 (-1) 5 0 0 = Inl (Fatal ''why batch max count less than 0?'')
   \<and> newBatch 1000 5 (-1) 0 0 = Inl (Fatal ''why batch size less than 0?'')
   \<and> newBatch 1000 0 0 0 0 = Inl (Fatal ''batch limits are not set'')
   \<and> newBatch 1000 1001 0 0 0 = Inl CapOutOfRange
   \<and> newBatch 1000 2 0 5 0 = Inr batch2"
  using newBatch_outcomes [of 1000 2 0 5 0] newBatch_outcomes [of 1000 1001 0 0 0]
  by (simp add: newBatch_def makeEvents_def reset_def zeroBatch_def batch2_def)

subsection \<open>The byte total\<close>

text \<open>
  C2: the comment on \<^verbatim>\<open>eventsSize\<close> says that it holds the total size of the
  events. \<^verbatim>\<open>NewPreparedBatch\<close> installs the events after \<^verbatim>\<open>reset\<close> and leaves
  \<^verbatim>\<open>eventsSize\<close> at 0: for one event of size 5 the field is 0 and the sum is 5.
\<close>

theorem NewPreparedBatch_eventsSize_stale:
  "eventsSize (NewPreparedBatch [ev 0 5 False] 0) = 0
   \<and> sum_list (map Size (events (NewPreparedBatch [ev 0 5 False] 0))) = 5"
  by (simp add: NewPreparedBatch_def reset_def zeroBatch_def ev_def)

text \<open>
  The invariant of \<^verbatim>\<open>eventsSize\<close> does hold on the path of \<^verbatim>\<open>newBatch\<close>,
  \<^verbatim>\<open>reset\<close> and \<^verbatim>\<open>append\<close> (and \<^verbatim>\<open>Next\<close>).
\<close>

lemma eventsSize_is_sum:
  assumes "newBatch lim c m t now0 = Inr b0" and "applyOps b0 ops = Inr b"
  shows "eventsSize b = sum_list (map Size (events b))"
  using applyOps_sizeSum [OF _ assms(2)] newBatch_facts [OF assms(1)]
  by (simp add: sizeSum_def)


section \<open>Properties of the batcher\<close>

subsection \<open>Runs\<close>

lemma sealedBatches_append:
  "sealedBatches (xs @ ys) = sealedBatches xs @ sealedBatches ys"
  by (induction xs rule: sealedBatches.induct) simp_all

text \<open>
  A property that holds at the start and is preserved by every step holds after every run.
\<close>

lemma run_invariant:
  assumes "run ls \<sigma>0 = Some \<sigma>" and "P \<sigma>0"
    and "\<And>l s s'. P s \<Longrightarrow> step l s = Some s' \<Longrightarrow> P s'"
  shows "P \<sigma>"
  using assms(1,2)
proof (induction ls arbitrary: \<sigma>0)
  case Nil
  then show ?case by simp
next
  case (Cons l ls)
  from Cons.prems(1) obtain s1 where s1: "step l \<sigma>0 = Some s1" "run ls s1 = Some \<sigma>"
    by (auto split: option.splits)
  from assms(3) [OF Cons.prems(2) s1(1)] have "P s1" .
  from Cons.IH [OF s1(2) this] show ?case .
qed


subsection \<open>Sequence numbers of sealed batches\<close>

lemma getBatch_fields:
  "getBatch s now = Some (b, s1) \<Longrightarrow>
     outSeq s1 = outSeq s \<and> history s1 = history s \<and> commitSeq s1 = commitSeq s
     \<and> seqMu s1 = seqMu s \<and> workers s1 = workers s \<and> opts s1 = opts s
     \<and> sending s1 = sending s \<and> fullBatches s1 = fullBatches s \<and> batch s1 = Some b"
  by (auto simp: getBatch_def split: option.splits list.splits)


lemma seqInv_cong:
  "seqInv s \<Longrightarrow> outSeq s' = outSeq s \<Longrightarrow> sealedBatches (history s') = sealedBatches (history s)
     \<Longrightarrow> seqInv s'"
  by (simp add: seqInv_def)






subsection \<open>Sizes of sealed batches\<close>

lemma heldBatch_wake [simp]: "heldBatch (wake p) = heldBatch p"
  by (cases p) simp_all

lemma held_update:
  "held (ps[i := q]) \<subseteq> held ps \<union> set_option (heldBatch q)"
  by (auto simp: held_def dest!: subsetD [OF set_update_subset_insert])

lemma held_map_wake [simp]: "held (map wake ps) = held ps"
  by (auto simp: held_def)

lemma held_nth: "i < length ps \<Longrightarrow> heldBatch (ps ! i) = Some b \<Longrightarrow> b \<in> held ps"
  using nth_mem by (fastforce simp: held_def)

lemma held_replicate_Idle [simp]: "held (replicate n (Idle es)) = {}"
  by (auto simp: held_def)

lemma held_Nil [simp]: "held [] = {}"
  by (simp add: held_def)

lemma limitsOf_upd [simp]:
  "limitsOf os (b\<lparr>seq := s\<rparr>) = limitsOf os b"
  "limitsOf os (b\<lparr>iteratorIndex := c, events := es\<rparr>) = limitsOf os b"
  "limitsOf os (reset b now) = limitsOf os b"
  "limitsOf os (append_event b e) = limitsOf os b"
  by (simp_all add: limitsOf_def limitsSet_def reset_def append_event_def)

lemma openOk_reset: "limitsOf os b \<Longrightarrow> openOk os (reset b now)"
  by (auto simp: openOk_def) (auto simp: limitsOf_def limitsSet_def notFull_def sizeSum_def reset_def)

lemma not_ready_notFull:
  "limitsSet b \<Longrightarrow> \<not> isReady b now \<Longrightarrow> notFull b"
  by (auto simp: isReady_def notFull_def Let_def limitsSet_def)

lemma ready_notFull_nonempty:
  "isReady b now \<Longrightarrow> notFull b \<Longrightarrow> events b \<noteq> []"
  by (auto simp: isReady_def notFull_def Let_def)

lemma append_sealedOk:
  "openOk os b \<Longrightarrow> sealedOk os ((append_event b e)\<lparr>seq := s\<rparr>)"
  by (auto simp: openOk_def sealedOk_def) (auto simp: notFull_def append_event_def)

lemma append_openOk:
  assumes "openOk os b" and "\<not> isReady (append_event b e) now"
  shows "openOk os (append_event b e)"
proof -
  from assms(1) have l: "limitsOf os (append_event b e)" by (simp add: openOk_def)
  then have "limitsSet (append_event b e)" by (simp add: limitsOf_def)
  from not_ready_notFull [OF this assms(2)] have n: "notFull (append_event b e)" .
  from assms(1) have "maxSizeBytes b = 0 \<or> eventsSize b < maxSizeBytes b"
    by (simp add: openOk_def notFull_def)
  then have "maxSizeBytes (append_event b e) = 0
      \<or> eventsSize (append_event b e) - Size (last (events (append_event b e)))
           < maxSizeBytes (append_event b e)"
    by (auto simp: append_event_def)
  moreover from assms(1) have "sizeSum (append_event b e)"
    by (simp add: openOk_def sizeSum_def append_event_def)
  ultimately show ?thesis using l n by (simp add: openOk_def)
qed

lemma open_sealedOk:
  "openOk os b \<Longrightarrow> isReady b now \<Longrightarrow> sealedOk os (b\<lparr>seq := s\<rparr>)"
  by (frule ready_notFull_nonempty) (auto simp: openOk_def notFull_def sealedOk_def)

lemma getBatch_sizeInv:
  assumes "sizeInv s" and "getBatch s now = Some (b, s1)"
  shows "openOk (opts s) b \<and> batch s1 = Some b \<and> poolBatches s1 \<subseteq> poolBatches s
         \<and> history s1 = history s \<and> opts s1 = opts s"
  using assms
  by (auto simp: getBatch_def sizeInv_def poolBatches_def openOk_reset
           split: option.splits list.splits)

lemma trySend_sizeInv:
  assumes "batch s = Some b" and "limitsOf (opts s) b" and "\<not> isReady b now \<longrightarrow> openOk (opts s) b"
    and "\<forall>b \<in> poolBatches s. limitsOf (opts s) b"
    and "\<forall>b \<in> set (sealedBatches (history s)). sealedOk (opts s) b"
    and "isReady b now \<longrightarrow> sealedOk (opts s) (b\<lparr>seq := outSeq s\<rparr>)"
  shows "sizeInv (trySendBatchAndUnlock s b now)"
  using assms
  by (auto simp: sizeInv_def trySendBatchAndUnlock_def poolBatches_def sealedBatches_append)

lemma commitBatch_sizeInv:
  "commitBatch w p s = Some s' \<Longrightarrow> w < length (workers s) \<Longrightarrow> workers s ! w = p \<Longrightarrow>
     batch s' = batch s \<and> sealedBatches (history s') = sealedBatches (history s)
     \<and> poolBatches s' \<subseteq> poolBatches s \<and> opts s' = opts s"
proof (induction w p s rule: commitBatch.induct)
  case (9 w b es \<sigma>)
  from held_nth [OF 9(2)] 9(3) have "b \<in> held (workers \<sigma>)" by simp
  with 9 show ?case
    using held_update [of "workers \<sigma>" w "Idle es"]
    by (auto simp: poolBatches_def sealedBatches_append split: if_splits)
next
  case (7 w b es \<sigma>)
  from held_nth [OF 7(2)] 7(3) have "b \<in> held (workers \<sigma>)" by simp
  with 7 show ?case
    using held_update [of "map wake (workers \<sigma>)" w "AtUnlock b es"]
    by (auto simp: poolBatches_def)
next
  case (2 w b es \<sigma>)
  from held_nth [OF 2(2)] 2(3) have "b \<in> held (workers \<sigma>)" by simp
  with 2 show ?case
    using held_update [of "workers \<sigma>" w "AtCheck b es"]
    by (auto simp: poolBatches_def split: if_splits)
next
  case (3 w b es \<sigma>)
  from held_nth [OF 3(2)] 3(3) have "b \<in> held (workers \<sigma>)" by simp
  with 3 show ?case
    using held_update [of "workers \<sigma>" w "AtIncr b es"] held_update [of "workers \<sigma>" w "InWait b es"]
    by (auto simp: poolBatches_def sealedBatches_append split: if_splits)
next
  case (5 w b es \<sigma>)
  from held_nth [OF 5(2)] 5(3) have "b \<in> held (workers \<sigma>)" by simp
  with 5 show ?case
    using held_update [of "workers \<sigma>" w "AtCommit b es es"]
    by (auto simp: poolBatches_def sealedBatches_append)
next
  case (6 w b es e rest \<sigma>)
  from held_nth [OF 6(2)] 6(3) have "b \<in> held (workers \<sigma>)" by simp
  with 6 show ?case
    using held_update [of "workers \<sigma>" w "AtCommit b es rest"]
    by (auto simp: poolBatches_def sealedBatches_append)
next
  case (8 w b es \<sigma>)
  from held_nth [OF 8(2)] 8(3) have "b \<in> held (workers \<sigma>)" by simp
  with 8 show ?case
    using held_update [of "workers \<sigma>" w "AtSend b es"]
    by (auto simp: poolBatches_def sealedBatches_append)
qed simp_all

lemma step_sizeInv:
  assumes "sizeInv s" and "step l s = Some s'"
  shows "sizeInv s'"
proof (cases l)
  case (LAdd e now now')
  with assms(2) obtain b s1 where g: "getBatch s now = Some (b, s1)"
    and s': "s' = trySendBatchAndUnlock (s1\<lparr>batch := Some (append_event b e)\<rparr>) (append_event b e) now'"
    by (auto simp: Add_def split: option.splits)
  from getBatch_sizeInv [OF assms(1) g] have ok: "openOk (opts s) b" and
    sub: "poolBatches s1 \<subseteq> poolBatches s" and h: "history s1 = history s"
    and o: "opts s1 = opts s" by simp_all
  let ?s2 = "s1\<lparr>batch := Some (append_event b e)\<rparr>"
  have p2: "poolBatches ?s2 = poolBatches s1" by (simp add: poolBatches_def)
  have o2: "opts ?s2 = opts s" using o by simp
  show ?thesis unfolding s'
  proof (rule trySend_sizeInv)
    show "batch ?s2 = Some (append_event b e)" by simp
    show "limitsOf (opts ?s2) (append_event b e)" using ok o by (simp add: openOk_def)
    show "\<not> isReady (append_event b e) now' \<longrightarrow> openOk (opts ?s2) (append_event b e)"
      using ok o by (simp add: append_openOk)
    show "\<forall>b \<in> poolBatches ?s2. limitsOf (opts ?s2) b"
      using assms(1) sub p2 o by (auto simp: sizeInv_def)
    show "\<forall>b \<in> set (sealedBatches (history ?s2)). sealedOk (opts ?s2) b"
      using assms(1) h o by (simp add: sizeInv_def)
    show "isReady (append_event b e) now' \<longrightarrow>
            sealedOk (opts ?s2) ((append_event b e)\<lparr>seq := outSeq ?s2\<rparr>)"
      using ok o by (simp add: append_sealedOk)
  qed
next
  case (LTick now now')
  with assms(2) obtain b s1 where g: "getBatch s now = Some (b, s1)"
    and s': "s' = trySendBatchAndUnlock s1 b now'"
    by (auto simp: heartbeat_def split: option.splits)
  from getBatch_sizeInv [OF assms(1) g] have ok: "openOk (opts s) b" and bs: "batch s1 = Some b" and
    sub: "poolBatches s1 \<subseteq> poolBatches s" and h: "history s1 = history s"
    and o: "opts s1 = opts s" by simp_all
  show ?thesis unfolding s'
  proof (rule trySend_sizeInv)
    show "batch s1 = Some b" by (rule bs)
    show "limitsOf (opts s1) b" using ok o by (simp add: openOk_def)
    show "\<not> isReady b now' \<longrightarrow> openOk (opts s1) b" using ok o by simp
    show "\<forall>b \<in> poolBatches s1. limitsOf (opts s1) b"
      using assms(1) sub o by (auto simp: sizeInv_def)
    show "\<forall>b \<in> set (sealedBatches (history s1)). sealedOk (opts s1) b"
      using assms(1) h o by (simp add: sizeInv_def)
    show "isReady b now' \<longrightarrow> sealedOk (opts s1) (b\<lparr>seq := outSeq s1\<rparr>)"
      using ok o by (simp add: open_sealedOk)
  qed
next
  case (LSend i)
  with assms(2) have i: "i < length (sending s)"
    and s': "s' = s\<lparr>fullBatches := fullBatches s @ [sending s ! i],
                    sending := take i (sending s) @ drop (Suc i) (sending s)\<rparr>"
    by (auto simp: sendFull_def split: if_splits)
  have "set (take i (sending s) @ drop (Suc i) (sending s)) \<subseteq> set (sending s)"
    using set_take_subset set_drop_subset by fastforce
  moreover have "sending s ! i \<in> set (sending s)" using i by simp
  ultimately have "poolBatches s' \<subseteq> poolBatches s"
    unfolding s' poolBatches_def by auto
  with assms(1) show ?thesis unfolding s' by (auto simp: sizeInv_def)
next
  case (LRecv w c)
  with assms(2) obtain es b rest where w: "w < length (workers s)"
    and f: "fullBatches s = b # rest"
    and s': "s' = s\<lparr>fullBatches := rest,
                   workers := (workers s)[w := AtLock (b\<lparr>iteratorIndex := c, events := es\<rparr>) (events b)],
                   history := history s @ [Called w (b\<lparr>iteratorIndex := c\<rparr>)]\<rparr>"
    by (auto simp: work_def split: if_splits worker.splits list.splits)
  have "poolBatches s' \<subseteq> poolBatches s \<union> {b\<lparr>iteratorIndex := c, events := es\<rparr>}"
    unfolding s' poolBatches_def
    using held_update [of "workers s" w "AtLock (b\<lparr>iteratorIndex := c, events := es\<rparr>) (events b)"] f
    by auto
  moreover have "limitsOf (opts s) b" using assms(1) f by (simp add: sizeInv_def poolBatches_def)
  ultimately have "\<forall>x \<in> poolBatches s'. limitsOf (opts s) x"
    using assms(1) by (auto simp: sizeInv_def)
  with assms(1) show ?thesis unfolding s' by (simp add: sizeInv_def sealedBatches_append)
next
  case (LStep w)
  with assms(2) have w: "w < length (workers s)"
    and c: "commitBatch w (workers s ! w) s = Some s'" by (simp_all split: if_splits)
  from commitBatch_sizeInv [OF c w refl] assms(1) show ?thesis
    by (auto simp: sizeInv_def)
qed

lemma Start_sizeInv: "Start lim os now = Inr s \<Longrightarrow> sizeInv s \<and> opts s = os"
  by (auto simp: Start_def sizeInv_def poolBatches_def limitsOf_def split: if_splits sum.splits
           dest!: newBatch_Inr) (auto simp: limitsSet_def)

lemma step_opts: "step l s = Some s' \<Longrightarrow> opts s' = opts s"
proof (cases l)
  case (LStep w)
  assume "step l s = Some s'"
  with LStep have "w < length (workers s)" "commitBatch w (workers s ! w) s = Some s'"
    by (simp_all split: if_splits)
  from commitBatch_sizeInv [OF this(2,1) refl] show ?thesis by simp
qed (auto simp: Add_def heartbeat_def sendFull_def work_def getBatch_def trySendBatchAndUnlock_def
       split: option.splits list.splits if_splits worker.splits)

subsection \<open>The commit gate\<close>

lemma passedSeqs_append: "passedSeqs (xs @ ys) = passedSeqs xs @ passedSeqs ys"
  by (induction xs rule: passedSeqs.induct) simp_all

lemma unlockedSeqs_append: "unlockedSeqs (xs @ ys) = unlockedSeqs xs @ unlockedSeqs ys"
  by (induction xs rule: unlockedSeqs.induct) simp_all

lemma inSection_inGate: "inSection p = Some x \<Longrightarrow> inGate p"
  by (cases p) simp_all

lemma inGate_wake [simp]: "inGate (wake p) = inGate p"
  by (cases p) simp_all

lemma inSection_wake [simp]: "inSection (wake p) = inSection p"
  by (cases p) simp_all

lemma snoc_eq_mid:
  "h @ [a] = pre @ x # post \<Longrightarrow>
     (post = [] \<and> a = x \<and> pre = h) \<or> (\<exists>post'. post = post' @ [a] \<and> h = pre @ x # post')"
  by (cases post rule: rev_cases) auto

lemma histOk_snoc_other:
  assumes "histOk h" and "\<And>w s. a \<noteq> Passed w s" and "\<And>w s e. a \<noteq> Committed w s e"
  shows "histOk (h @ [a])"
  unfolding histOk_def
proof (rule conjI; intro allI impI)
  fix pre w S post assume "h @ [a] = pre @ Passed w S # post"
  from snoc_eq_mid [OF this] assms(2) obtain post' where "h = pre @ Passed w S # post'" by auto
  with assms(1) show "S = word_of_nat (length (passedSeqs pre)) \<and> unlockedSeqs pre = passedSeqs pre"
    by (auto simp: histOk_def)
next
  fix pre w s e post assume "h @ [a] = pre @ Committed w s e # post"
  from snoc_eq_mid [OF this] assms(3) obtain post' where "h = pre @ Committed w s e # post'" by auto
  with assms(1) show "\<exists>p1 p2. pre = p1 @ Passed w s # p2 \<and> quiet p2"
    by (auto simp: histOk_def)
qed

lemma histOk_snoc_Passed:
  assumes "histOk h" and "S = word_of_nat (length (passedSeqs h))"
    and "unlockedSeqs h = passedSeqs h"
  shows "histOk (h @ [Passed w S])"
  unfolding histOk_def
proof (rule conjI; intro allI impI)
  fix pre w' S' post assume "h @ [Passed w S] = pre @ Passed w' S' # post"
  from snoc_eq_mid [OF this]
  show "S' = word_of_nat (length (passedSeqs pre)) \<and> unlockedSeqs pre = passedSeqs pre"
    using assms by (auto simp: histOk_def)
next
  fix pre w' s e post assume "h @ [Passed w S] = pre @ Committed w' s e # post"
  from snoc_eq_mid [OF this] obtain post' where "h = pre @ Committed w' s e # post'" by auto
  with assms(1) show "\<exists>p1 p2. pre = p1 @ Passed w' s # p2 \<and> quiet p2"
    by (auto simp: histOk_def)
qed

lemma histOk_snoc_Committed:
  assumes "histOk h" and "h = p1 @ Passed w s # p2" and "quiet p2"
  shows "histOk (h @ [Committed w s e])"
  unfolding histOk_def
proof (rule conjI; intro allI impI)
  fix pre w' S' post assume "h @ [Committed w s e] = pre @ Passed w' S' # post"
  from snoc_eq_mid [OF this] obtain post' where "h = pre @ Passed w' S' # post'" by auto
  with assms(1)
  show "S' = word_of_nat (length (passedSeqs pre)) \<and> unlockedSeqs pre = passedSeqs pre"
    by (auto simp: histOk_def)
next
  fix pre w' s' e' post assume "h @ [Committed w s e] = pre @ Committed w' s' e' # post"
  from snoc_eq_mid [OF this]
  show "\<exists>p1 p2. pre = p1 @ Passed w' s' # p2 \<and> quiet p2"
    using assms by (auto simp: histOk_def)
qed

lemma quiet_simps [simp]:
  "quiet []"
  "quiet [Sealed b]"
  "quiet [Called w b]"
  "quiet [Advanced w s]"
  "quiet [Committed w s e]"
  "quiet [Freed w b]"
  "quiet (xs @ ys) = (quiet xs \<and> quiet ys)"
  by (auto simp: quiet_def passedSeqs_append unlockedSeqs_append)

lemma exclusive:
  assumes "lockOk s" and "w < length (workers s)" and "inGate (workers s ! w)"
    and "w' < length (workers s)" and "w' \<noteq> w"
  shows "\<not> inGate (workers s ! w')" and "inSection (workers s ! w') = None"
proof -
  from assms(1,2,3) have "seqMu s = Some w" by (simp add: lockOk_def)
  with assms(1,4,5) show g: "\<not> inGate (workers s ! w')" by (simp add: lockOk_def)
  then show "inSection (workers s ! w') = None"
    using inSection_inGate [of "workers s ! w'"] by (cases "inSection (workers s ! w')") auto
qed

lemma lockOk_same:
  assumes "lockOk s" and "seqMu s' = seqMu s" and "length (workers s') = length (workers s)"
    and "\<And>w. w < length (workers s) \<Longrightarrow> inGate (workers s' ! w) = inGate (workers s ! w)"
  shows "lockOk s'"
  using assms by (simp add: lockOk_def)

lemma lockOk_acquire:
  assumes "lockOk s" and "seqMu s = None" and "w < length (workers s)"
    and "workers s' = (workers s)[w := q]" and "inGate q" and "seqMu s' = Some w"
  shows "lockOk s'"
  using assms by (auto simp: lockOk_def nth_list_update)

lemma lockOk_release:
  assumes "lockOk s" and "w < length (workers s)" and "inGate (workers s ! w)"
    and "workers s' = (workers s)[w := q]" and "\<not> inGate q" and "seqMu s' = None"
  shows "lockOk s'"
  unfolding lockOk_def
proof (intro conjI allI impI)
  fix v assume "seqMu s' = Some v"
  with assms(6) show "v < length (workers s')" by simp
next
  fix v assume v: "v < length (workers s')"
  show "inGate (workers s' ! v) = (seqMu s' = Some v)"
  proof (cases "v = w")
    case True
    with assms show ?thesis by simp
  next
    case False
    with v assms(4) have "v < length (workers s)" "workers s' ! v = workers s ! v" by simp_all
    with exclusive(1) [OF assms(1,2,3) this(1) False] assms(6) show ?thesis by simp
  qed
qed

lemma gateOk_frame:
  assumes "gateOk s" and "commitSeq s' = commitSeq s" and "history s' = history s @ as"
    and "quiet as" and "length (workers s') = length (workers s)"
    and "\<And>w. w < length (workers s) \<Longrightarrow> inSection (workers s' ! w) = inSection (workers s ! w)"
  shows "gateOk s'"
proof -
  have p: "passedSeqs (history s') = passedSeqs (history s)"
    and u: "unlockedSeqs (history s') = unlockedSeqs (history s)"
    using assms(3,4) by (simp_all add: quiet_def passedSeqs_append unlockedSeqs_append)
  have busy: "(\<exists>p1 p2. history s' = p1 @ Passed w x # p2 \<and> quiet p2 \<and> unlockedSeqs p1 = passedSeqs p1)"
    if "\<exists>p1 p2. history s = p1 @ Passed w x # p2 \<and> quiet p2 \<and> unlockedSeqs p1 = passedSeqs p1"
    for w x
  proof -
    from that obtain p1 p2 where "history s = p1 @ Passed w x # p2" "quiet p2"
      "unlockedSeqs p1 = passedSeqs p1" by blast
    with assms(3,4) have "history s' = p1 @ Passed w x # (p2 @ as) \<and> quiet (p2 @ as)
      \<and> unlockedSeqs p1 = passedSeqs p1" by simp
    then show ?thesis by blast
  qed
  from assms(1) show ?thesis
    unfolding gateOk_def p u assms(2) assms(5)
    using assms(6) busy by (auto simp del: quiet_simps)
qed

lemma no_section:
  assumes "lockOk s" and "w < length (workers s)" and "inGate (workers s ! w)"
    and "inSection (workers s ! w) = None"
  shows "\<forall>v < length (workers s). inSection (workers s ! v) = None"
proof (intro allI impI)
  fix v assume v: "v < length (workers s)"
  show "inSection (workers s ! v) = None"
  proof (cases "v = w")
    case True
    with assms(4) show ?thesis by simp
  next
    case False
    from exclusive(2) [OF assms(1,2,3) v False] show ?thesis .
  qed
qed

lemma section_decomp:
  assumes "gateOk s" and "w < length (workers s)" and "inSection (workers s ! w) = Some (x, inc)"
  shows "\<exists>p1 p2. history s = p1 @ Passed w x # p2 \<and> quiet p2 \<and> unlockedSeqs p1 = passedSeqs p1"
    and "commitSeq s = (if inc then x + 1 else x)"
proof -
  from assms(1) have "\<forall>w < length (workers s). \<forall>s' inc. inSection (workers s ! w) = Some (s', inc) \<longrightarrow>
            (\<exists>p1 p2. history s = p1 @ Passed w s' # p2 \<and> quiet p2
                      \<and> unlockedSeqs p1 = passedSeqs p1)
            \<and> commitSeq s = (if inc then s' + 1 else s')"
    unfolding gateOk_def by (elim conjE)
  from this [rule_format, OF assms(2,3)]
  show "\<exists>p1 p2. history s = p1 @ Passed w x # p2 \<and> quiet p2 \<and> unlockedSeqs p1 = passedSeqs p1"
    and "commitSeq s = (if inc then x + 1 else x)" by simp_all
qed

lemma gateOk_pass:
  assumes "gateOk s" and "lockOk s" and "w < length (workers s)"
    and "workers s ! w = AtCheck b es" and "commitSeq s = seq b"
    and "workers s' = (workers s)[w := AtIncr b es]" and "commitSeq s' = commitSeq s"
    and "history s' = history s @ [Passed w (seq b)]"
  shows "gateOk s' \<and> seq b = word_of_nat (length (passedSeqs (history s)))
         \<and> unlockedSeqs (history s) = passedSeqs (history s)"
proof -
  let ?n = "length (passedSeqs (history s))"
  from no_section [OF assms(2,3)] assms(4)
  have none: "\<forall>v < length (workers s). inSection (workers s ! v) = None" by simp
  with assms(1) have u: "unlockedSeqs (history s) = passedSeqs (history s)"
    and c: "commitSeq s = word_of_nat ?n"
    and o: "passedSeqs (history s) = map word_of_nat [0..<?n]"
    by (simp_all add: gateOk_def)
  from c assms(5) have sb: "seq b = word_of_nat ?n" by simp
  have o': "passedSeqs (history s') = map word_of_nat [0..<length (passedSeqs (history s'))]"
    using o sb assms(8) by (simp add: passedSeqs_append)
  have sec: "inSection (workers s' ! v) = (if v = w then Some (seq b, False) else None)"
    if "v < length (workers s)" for v
    using that none assms(3,6) by (simp add: nth_list_update)
  have "gateOk s'"
    unfolding gateOk_def
  proof (intro conjI allI impI)
    show "passedSeqs (history s') = map word_of_nat [0..<length (passedSeqs (history s'))]"
      by (rule o')
  next
    assume "\<forall>v<length (workers s'). inSection (workers s' ! v) = None"
    moreover have "w < length (workers s')" using assms(3,6) by simp
    ultimately have "inSection (workers s' ! w) = None" by blast
    with sec [OF assms(3)] have False by simp
    then show "unlockedSeqs (history s') = passedSeqs (history s')"
      and "commitSeq s' = word_of_nat (length (passedSeqs (history s')))" by simp_all
  next
    fix v x inc assume v: "v < length (workers s')" and i: "inSection (workers s' ! v) = Some (x, inc)"
    from v assms(6) have v': "v < length (workers s)" by simp
    from sec [OF v'] i have e: "v = w" "x = seq b" "inc = False" by (auto split: if_splits)
    have "history s' = history s @ Passed v x # [] \<and> quiet [] \<and>
          unlockedSeqs (history s) = passedSeqs (history s)"
      using assms(8) e u by simp
    then show "\<exists>p1 p2. history s' = p1 @ Passed v x # p2 \<and> quiet p2 \<and> unlockedSeqs p1 = passedSeqs p1"
      by blast
    show "commitSeq s' = (if inc then x + 1 else x)" using e assms(5,7) by simp
  qed
  with sb u show ?thesis by simp
qed

lemma gateOk_incr:
  assumes "gateOk s" and "lockOk s" and "w < length (workers s)"
    and "workers s ! w = AtIncr b es"
    and "workers s' = (workers s)[w := AtCommit b es rest]" and "commitSeq s' = commitSeq s + 1"
    and "history s' = history s @ [Advanced w x]"
  shows "gateOk s'"
proof -
  have g: "inGate (workers s ! w)" using assms(4) by simp
  have sec: "inSection (workers s' ! v) = (if v = w then Some (seq b, True) else None)"
    if "v < length (workers s)" for v
    using that exclusive(2) [OF assms(2,3) g that] assms(3,5) by (simp add: nth_list_update)
  have "inSection (workers s ! w) = Some (seq b, False)" using assms(4) by simp
  from section_decomp [OF assms(1,3) this]
  obtain p1 p2 where d: "history s = p1 @ Passed w (seq b) # p2" "quiet p2"
    "unlockedSeqs p1 = passedSeqs p1" and c: "commitSeq s = seq b"
    by auto
  have o: "passedSeqs (history s') = map word_of_nat [0..<length (passedSeqs (history s'))]"
    using assms(1,7) by (simp add: gateOk_def passedSeqs_append)
  show ?thesis
    unfolding gateOk_def
  proof (intro conjI allI impI)
    show "passedSeqs (history s') = map word_of_nat [0..<length (passedSeqs (history s'))]"
      by (rule o)
  next
    assume "\<forall>v<length (workers s'). inSection (workers s' ! v) = None"
    moreover have "w < length (workers s')" using assms(3,5) by simp
    ultimately have "inSection (workers s' ! w) = None" by blast
    with sec [OF assms(3)] have False by simp
    then show "unlockedSeqs (history s') = passedSeqs (history s')"
      and "commitSeq s' = word_of_nat (length (passedSeqs (history s')))" by simp_all
  next
    fix v y inc assume v: "v < length (workers s')" and i: "inSection (workers s' ! v) = Some (y, inc)"
    from v assms(5) have v': "v < length (workers s)" by simp
    from sec [OF v'] i have e: "v = w" "y = seq b" "inc = True" by (auto split: if_splits)
    have "history s' = p1 @ Passed v y # (p2 @ [Advanced w x]) \<and> quiet (p2 @ [Advanced w x]) \<and>
          unlockedSeqs p1 = passedSeqs p1"
      using assms(7) e d by simp
    then show "\<exists>p1 p2. history s' = p1 @ Passed v y # p2 \<and> quiet p2 \<and> unlockedSeqs p1 = passedSeqs p1"
      by blast
    show "commitSeq s' = (if inc then y + 1 else y)" using e c assms(6) by simp
  qed
qed

lemma gateOk_unlock:
  assumes "gateOk s" and "lockOk s" and "w < length (workers s)"
    and "workers s ! w = AtUnlock b es"
    and "workers s' = (workers s)[w := AtSend b es]" and "commitSeq s' = commitSeq s"
    and "history s' = history s @ [Unlocked w (seq b)]"
  shows "gateOk s'"
proof -
  have g: "inGate (workers s ! w)" using assms(4) by simp
  have sec: "inSection (workers s' ! v) = None" if "v < length (workers s)" for v
    using that exclusive(2) [OF assms(2,3) g that] assms(3,5) by (simp add: nth_list_update)
  have "inSection (workers s ! w) = Some (seq b, True)" using assms(4) by simp
  from section_decomp [OF assms(1,3) this]
  obtain p1 p2 where d: "history s = p1 @ Passed w (seq b) # p2" "quiet p2"
    "unlockedSeqs p1 = passedSeqs p1" and c: "commitSeq s = seq b + 1"
    by auto
  let ?k = "length (passedSeqs p1)"
  from d have ps: "passedSeqs (history s) = passedSeqs p1 @ [seq b]"
    and us: "unlockedSeqs (history s) = passedSeqs p1"
    by (simp_all add: passedSeqs_append unlockedSeqs_append quiet_def)
  from assms(1) have o: "passedSeqs (history s) = map word_of_nat [0..<length (passedSeqs (history s))]"
    by (simp add: gateOk_def)
  have len: "length (passedSeqs (history s)) = Suc ?k" using ps by simp
  from o have "last (passedSeqs (history s)) = last (map word_of_nat [0..<Suc ?k])"
    unfolding len by simp
  then have sb: "seq b = word_of_nat ?k" using ps by simp
  have p': "passedSeqs (history s') = passedSeqs (history s)"
    and u': "unlockedSeqs (history s') = passedSeqs (history s)"
    using assms(7) ps us by (simp_all add: passedSeqs_append unlockedSeqs_append)
  show ?thesis
    unfolding gateOk_def
  proof (intro conjI allI impI)
    show "passedSeqs (history s') = map word_of_nat [0..<length (passedSeqs (history s'))]"
      using o p' by simp
    show "unlockedSeqs (history s') = passedSeqs (history s')" using p' u' by simp
    show "commitSeq s' = word_of_nat (length (passedSeqs (history s')))"
      using assms(6) c sb p' len by simp
  next
    fix v y inc assume v: "v < length (workers s')" and i: "inSection (workers s' ! v) = Some (y, inc)"
    from v assms(5) have "v < length (workers s)" by simp
    from sec [OF this] i have False by simp
    then show "\<exists>p1 p2. history s' = p1 @ Passed v y # p2 \<and> quiet p2 \<and> unlockedSeqs p1 = passedSeqs p1"
      and "commitSeq s' = (if inc then y + 1 else y)" by simp_all
  qed
qed

lemma commitBatch_gateInv:
  assumes "gateInv s" and "w < length (workers s)" and "commitBatch w (workers s ! w) s = Some s'"
  shows "gateInv s'"
proof -
  from assms(1) have l: "lockOk s" and h: "histOk (history s)" and g: "gateOk s"
    by (simp_all add: gateInv_def)
  show ?thesis
  proof (cases "workers s ! w")
    case (Idle es)
    with assms(3) show ?thesis by simp
  next
    case (InWait b es)
    with assms(3) show ?thesis by simp
  next
    case (AtLock b es)
    with assms(3) have f: "seqMu s = None"
      and s': "s' = s\<lparr>seqMu := Some w, workers := (workers s)[w := AtCheck b es]\<rparr>"
      by (simp_all split: if_splits)
    have "lockOk s'"
      by (rule lockOk_acquire [OF l f assms(2), of s' "AtCheck b es"]) (simp_all add: s')
    moreover have "gateOk s'"
      by (rule gateOk_frame [OF g, of s' "[]"])
         (use assms(2) AtLock in \<open>auto simp: s' nth_list_update\<close>)
    ultimately show ?thesis using h by (simp add: gateInv_def s')
  next
    case (AtCheck b es)
    have ing: "inGate (workers s ! w)" using AtCheck by simp
    show ?thesis
    proof (cases "commitSeq s = seq b")
      case False
      with assms(3) AtCheck
      have s': "s' = s\<lparr>seqMu := None, workers := (workers s)[w := InWait b es]\<rparr>" by simp
      have "lockOk s'"
        by (rule lockOk_release [OF l assms(2) ing, of s' "InWait b es"]) (simp_all add: s')
      moreover have "gateOk s'"
        by (rule gateOk_frame [OF g, of s' "[]"])
           (use assms(2) AtCheck in \<open>auto simp: s' nth_list_update\<close>)
      ultimately show ?thesis using h by (simp add: gateInv_def s')
    next
      case True
      with assms(3) AtCheck
      have s': "s' = s\<lparr>workers := (workers s)[w := AtIncr b es],
                         history := history s @ [Passed w (seq b)]\<rparr>" by simp
      have "lockOk s'"
        by (rule lockOk_same [OF l]) (use assms(2) AtCheck in \<open>auto simp: s' nth_list_update\<close>)
      moreover have p: "gateOk s' \<and> seq b = word_of_nat (length (passedSeqs (history s)))
         \<and> unlockedSeqs (history s) = passedSeqs (history s)"
        by (rule gateOk_pass [OF g l assms(2) AtCheck True]) (simp_all add: s')
      moreover have "histOk (history s')"
        unfolding s' using histOk_snoc_Passed [OF h, of "seq b" w] p by simp
      ultimately show ?thesis by (simp add: gateInv_def)
    qed
  next
    case (AtIncr b es)
    with assms(3)
    have s': "s' = s\<lparr>commitSeq := commitSeq s + 1, workers := (workers s)[w := AtCommit b es es],
              history := history s @ [Advanced w (commitSeq s + 1)]\<rparr>" by simp
    have "lockOk s'"
      by (rule lockOk_same [OF l]) (use assms(2) AtIncr in \<open>auto simp: s' nth_list_update\<close>)
    moreover have "gateOk s'"
      by (rule gateOk_incr [OF g l assms(2) AtIncr, of s' es "commitSeq s + 1"]) (simp_all add: s')
    moreover have "histOk (history s')"
      unfolding s' using histOk_snoc_other [OF h, of "Advanced w (commitSeq s + 1)"] by simp
    ultimately show ?thesis by (simp add: gateInv_def)
  next
    case (AtCommit b es rest)
    show ?thesis
    proof (cases rest)
      case Nil
      with assms(3) AtCommit
      have s': "s' = s\<lparr>workers := (map wake (workers s))[w := AtUnlock b es]\<rparr>" by simp
      have "lockOk s'"
        by (rule lockOk_same [OF l]) (use assms(2) AtCommit in \<open>auto simp: s' nth_list_update\<close>)
      moreover have "gateOk s'"
        by (rule gateOk_frame [OF g, of s' "[]"])
           (use assms(2) AtCommit in \<open>auto simp: s' nth_list_update\<close>)
      ultimately show ?thesis using h by (simp add: gateInv_def s')
    next
      case (Cons e rest')
      with assms(3) AtCommit
      have s': "s' = s\<lparr>workers := (workers s)[w := AtCommit b es rest'],
              history := history s @ [Committed w (seq b) e]\<rparr>" by simp
      have "lockOk s'"
        by (rule lockOk_same [OF l]) (use assms(2) AtCommit in \<open>auto simp: s' nth_list_update\<close>)
      moreover have "gateOk s'"
        by (rule gateOk_frame [OF g, of s' "[Committed w (seq b) e]"])
           (use assms(2) AtCommit in \<open>auto simp: s' nth_list_update\<close>)
      moreover have "histOk (history s')"
      proof -
        have "inSection (workers s ! w) = Some (seq b, True)" using AtCommit by simp
        from section_decomp(1) [OF g assms(2) this] obtain p1 p2 where
          "history s = p1 @ Passed w (seq b) # p2" "quiet p2" by blast
        from histOk_snoc_Committed [OF h this] show ?thesis by (simp add: s')
      qed
      ultimately show ?thesis by (simp add: gateInv_def)
    qed
  next
    case (AtUnlock b es)
    have ing: "inGate (workers s ! w)" using AtUnlock by simp
    from assms(3) AtUnlock
    have s': "s' = s\<lparr>seqMu := None, workers := (workers s)[w := AtSend b es],
              history := history s @ [Unlocked w (seq b)]\<rparr>" by simp
    have "lockOk s'"
      by (rule lockOk_release [OF l assms(2) ing, of s' "AtSend b es"]) (simp_all add: s')
    moreover have "gateOk s'"
      by (rule gateOk_unlock [OF g l assms(2) AtUnlock]) (simp_all add: s')
    moreover have "histOk (history s')"
      unfolding s' using histOk_snoc_other [OF h, of "Unlocked w (seq b)"] by simp
    ultimately show ?thesis by (simp add: gateInv_def)
  next
    case (AtSend b es)
    with assms(3)
    have s': "s' = s\<lparr>freeBatches := freeBatches s @ [b], workers := (workers s)[w := Idle es],
                    history := history s @ [Freed w b]\<rparr>"
      by (simp split: if_splits)
    have "lockOk s'"
      by (rule lockOk_same [OF l]) (use assms(2) AtSend in \<open>auto simp: s' nth_list_update\<close>)
    moreover have "gateOk s'"
      by (rule gateOk_frame [OF g, of s' "[Freed w b]"])
         (use assms(2) AtSend in \<open>auto simp: s' nth_list_update\<close>)
    moreover have "histOk (history s')"
      unfolding s' using histOk_snoc_other [OF h, of "Freed w b"] by simp
    ultimately show ?thesis by (simp add: gateInv_def)
  qed
qed

lemma trySend_gateInv:
  assumes "gateInv s"
  shows "gateInv (trySendBatchAndUnlock s b now)"
proof (cases "isReady b now")
  case False
  with assms show ?thesis by (simp add: trySendBatchAndUnlock_def)
next
  case True
  let ?s' = "trySendBatchAndUnlock s b now"
  from assms have l: "lockOk s" and h: "histOk (history s)" and g: "gateOk s"
    by (simp_all add: gateInv_def)
  have hs: "history ?s' = history s @ [Sealed (b\<lparr>seq := outSeq s\<rparr>)]"
    using True by (simp add: trySendBatchAndUnlock_def)
  have "lockOk ?s'"
    by (rule lockOk_same [OF l]) (simp_all add: trySendBatchAndUnlock_def)
  moreover have "gateOk ?s'"
    by (rule gateOk_frame [OF g _ hs]) (simp_all add: trySendBatchAndUnlock_def)
  moreover have "histOk (history ?s')"
    unfolding hs using histOk_snoc_other [OF h, of "Sealed (b\<lparr>seq := outSeq s\<rparr>)"] by simp
  ultimately show ?thesis by (simp add: gateInv_def)
qed

lemma gateInv_cong:
  assumes "gateInv s" and "seqMu s' = seqMu s" and "commitSeq s' = commitSeq s"
    and "history s' = history s" and "length (workers s') = length (workers s)"
    and "\<And>w. w < length (workers s) \<Longrightarrow> inGate (workers s' ! w) = inGate (workers s ! w)"
    and "\<And>w. w < length (workers s) \<Longrightarrow> inSection (workers s' ! w) = inSection (workers s ! w)"
  shows "gateInv s'"
proof -
  from assms(1) have l: "lockOk s" and h: "histOk (history s)" and g: "gateOk s"
    by (simp_all add: gateInv_def)
  have "lockOk s'" by (rule lockOk_same [OF l assms(2,5,6)])
  moreover have "gateOk s'"
    by (rule gateOk_frame [OF g assms(3), of "[]"]) (simp_all add: assms)
  ultimately show ?thesis using h assms(4) by (simp add: gateInv_def)
qed

lemma step_gateInv:
  assumes "gateInv s" and "step l s = Some s'"
  shows "gateInv s'"
proof (cases l)
  case (LAdd e now now')
  with assms(2) obtain b s1 where g: "getBatch s now = Some (b, s1)"
    and s': "s' = trySendBatchAndUnlock (s1\<lparr>batch := Some (append_event b e)\<rparr>) (append_event b e) now'"
    by (auto simp: Add_def split: option.splits)
  have "gateInv (s1\<lparr>batch := Some (append_event b e)\<rparr>)"
    by (rule gateInv_cong [OF assms(1)]) (use getBatch_fields [OF g] in simp_all)
  then show ?thesis unfolding s' by (rule trySend_gateInv)
next
  case (LTick now now')
  with assms(2) obtain b s1 where g: "getBatch s now = Some (b, s1)"
    and s': "s' = trySendBatchAndUnlock s1 b now'"
    by (auto simp: heartbeat_def split: option.splits)
  have "gateInv s1"
    by (rule gateInv_cong [OF assms(1)]) (use getBatch_fields [OF g] in simp_all)
  then show ?thesis unfolding s' by (rule trySend_gateInv)
next
  case (LSend i)
  with assms(2) have s': "s' = s\<lparr>fullBatches := fullBatches s @ [sending s ! i],
                    sending := take i (sending s) @ drop (Suc i) (sending s)\<rparr>"
    by (auto simp: sendFull_def split: if_splits)
  show ?thesis by (rule gateInv_cong [OF assms(1)]) (simp_all add: s')
next
  case (LRecv w c)
  with assms(2) obtain es b rest where w: "w < length (workers s)"
    and i: "workers s ! w = Idle es"
    and s': "s' = s\<lparr>fullBatches := rest,
                   workers := (workers s)[w := AtLock (b\<lparr>iteratorIndex := c, events := es\<rparr>) (events b)],
                   history := history s @ [Called w (b\<lparr>iteratorIndex := c\<rparr>)]\<rparr>"
    by (auto simp: work_def split: if_splits worker.splits list.splits)
  from assms(1) have l: "lockOk s" and h: "histOk (history s)" and g: "gateOk s"
    by (simp_all add: gateInv_def)
  have "lockOk s'"
    by (rule lockOk_same [OF l]) (use w i in \<open>auto simp: s' nth_list_update\<close>)
  moreover have "gateOk s'"
    by (rule gateOk_frame [OF g, of s' "[Called w (b\<lparr>iteratorIndex := c\<rparr>)]"])
       (use w i in \<open>auto simp: s' nth_list_update\<close>)
  moreover have "histOk (history s')"
    unfolding s' using histOk_snoc_other [OF h, of "Called w (b\<lparr>iteratorIndex := c\<rparr>)"] by simp
  ultimately show ?thesis by (simp add: gateInv_def)
next
  case (LStep w)
  with assms(2) have w: "w < length (workers s)"
    and c: "commitBatch w (workers s ! w) s = Some s'" by (simp_all split: if_splits)
  from commitBatch_gateInv [OF assms(1) w c] show ?thesis .
qed

lemma Start_gateInv: "Start lim os now = Inr s \<Longrightarrow> gateInv s"
  by (auto simp: Start_def gateInv_def lockOk_def histOk_def gateOk_def
           split: if_splits sum.splits)

subsection \<open>Batches pass the gate after their sealing\<close>

lemma passAfterSeal_snoc_other:
  assumes "passAfterSeal h" and "\<And>w s. a \<noteq> Passed w s"
  shows "passAfterSeal (h @ [a])"
  unfolding passAfterSeal_def
proof (intro allI impI)
  fix pre w S post assume "h @ [a] = pre @ Passed w S # post"
  from snoc_eq_mid [OF this] assms(2) obtain post' where "h = pre @ Passed w S # post'" by auto
  with assms(1) show "S \<in> seq ` set (sealedBatches pre)" by (auto simp: passAfterSeal_def)
qed

lemma passAfterSeal_snoc_Passed:
  assumes "passAfterSeal h" and "S \<in> seq ` set (sealedBatches h)"
  shows "passAfterSeal (h @ [Passed w S])"
  unfolding passAfterSeal_def
proof (intro allI impI)
  fix pre w' S' post assume "h @ [Passed w S] = pre @ Passed w' S' # post"
  from snoc_eq_mid [OF this] show "S' \<in> seq ` set (sealedBatches pre)"
    using assms by (auto simp: passAfterSeal_def)
qed

lemma commitBatch_frame:
  assumes "w < length (workers s)" and "commitBatch w (workers s ! w) s = Some s'"
  shows "held (workers s') \<subseteq> held (workers s) \<and> sending s' = sending s
         \<and> fullBatches s' = fullBatches s
         \<and> sealedBatches (history s') = sealedBatches (history s)
         \<and> (\<exists>a. history s' = history s \<or> history s' = history s @ [a]
                \<and> (\<forall>v S. a = Passed v S \<longrightarrow> (\<exists>b \<in> held (workers s). seq b = S)))"
proof -
  have sub: "held ((workers s)[w := q]) \<subseteq> held (workers s)"
    if "heldBatch q = None \<or> heldBatch q = heldBatch (workers s ! w)" for q
  proof -
    from that have "set_option (heldBatch q) \<subseteq> held (workers s)"
      using held_nth [OF assms(1)] by (cases "heldBatch q") auto
    with held_update [of "workers s" w q] show ?thesis by blast
  qed
  have subw: "held ((map wake (workers s))[w := q]) \<subseteq> held (workers s)"
    if "heldBatch q = heldBatch (workers s ! w)" for q
  proof -
    from that have "set_option (heldBatch q) \<subseteq> held (workers s)"
      using held_nth [OF assms(1)] by (cases "heldBatch q") auto
    with held_update [of "map wake (workers s)" w q] show ?thesis by auto
  qed
  show ?thesis
  proof (cases "workers s ! w")
    case (AtCheck b es)
    have "b \<in> held (workers s)" using held_nth [OF assms(1)] AtCheck by simp
    with assms(2) AtCheck sub [of "InWait b es"] sub [of "AtIncr b es"] show ?thesis
      by (auto simp: sealedBatches_append split: if_splits)
  next
    case (AtCommit b es rest)
    with assms(2) sub [of "AtCommit b es (tl rest)"] subw [of "AtUnlock b es"] show ?thesis
      by (cases rest) (auto simp: sealedBatches_append)
  next
    case (AtLock b es)
    with assms(2) sub [of "AtCheck b es"] show ?thesis by (auto split: if_splits)
  next
    case (AtIncr b es)
    with assms(2) sub [of "AtCommit b es es"] show ?thesis by (auto simp: sealedBatches_append)
  next
    case (AtUnlock b es)
    with assms(2) sub [of "AtSend b es"] show ?thesis by (auto simp: sealedBatches_append)
  next
    case (AtSend b es)
    with assms(2) sub [of "Idle es"] show ?thesis
      by (auto simp: sealedBatches_append split: if_splits)
  qed (use assms(2) in simp_all)
qed

lemma trySend_sealInv:
  assumes "sealInv s"
  shows "sealInv (trySendBatchAndUnlock s b now)"
proof (cases "isReady b now")
  case False
  with assms show ?thesis by (simp add: trySendBatchAndUnlock_def)
next
  case True
  let ?b = "b\<lparr>seq := outSeq s\<rparr>"
  let ?s' = "trySendBatchAndUnlock s b now"
  have h: "history ?s' = history s @ [Sealed ?b]" and i: "inflight ?s' = inflight s \<union> {?b}"
    using True by (auto simp: trySendBatchAndUnlock_def inflight_def)
  have "passAfterSeal (history ?s')"
    unfolding h using assms by (intro passAfterSeal_snoc_other) (simp_all add: sealInv_def)
  moreover have "\<forall>x \<in> inflight ?s'. seq x \<in> seq ` set (sealedBatches (history ?s'))"
    unfolding h i using assms by (auto simp: sealInv_def sealedBatches_append)
  ultimately show ?thesis by (simp add: sealInv_def)
qed

lemma sealInv_cong:
  assumes "sealInv s" and "history s' = history s" and "inflight s' \<subseteq> inflight s"
  shows "sealInv s'"
  using assms by (auto simp: sealInv_def)

lemma step_sealInv:
  assumes "sealInv s" and "step l s = Some s'"
  shows "sealInv s'"
proof (cases l)
  case (LAdd e now now')
  with assms(2) obtain b s1 where g: "getBatch s now = Some (b, s1)"
    and s': "s' = trySendBatchAndUnlock (s1\<lparr>batch := Some (append_event b e)\<rparr>) (append_event b e) now'"
    by (auto simp: Add_def split: option.splits)
  have "sealInv (s1\<lparr>batch := Some (append_event b e)\<rparr>)"
    by (rule sealInv_cong [OF assms(1)]) (use getBatch_fields [OF g] in \<open>simp_all add: inflight_def\<close>)
  then show ?thesis unfolding s' by (rule trySend_sealInv)
next
  case (LTick now now')
  with assms(2) obtain b s1 where g: "getBatch s now = Some (b, s1)"
    and s': "s' = trySendBatchAndUnlock s1 b now'"
    by (auto simp: heartbeat_def split: option.splits)
  have "sealInv s1"
    by (rule sealInv_cong [OF assms(1)]) (use getBatch_fields [OF g] in \<open>simp_all add: inflight_def\<close>)
  then show ?thesis unfolding s' by (rule trySend_sealInv)
next
  case (LSend i)
  with assms(2) have i: "i < length (sending s)"
    and s': "s' = s\<lparr>fullBatches := fullBatches s @ [sending s ! i],
                    sending := take i (sending s) @ drop (Suc i) (sending s)\<rparr>"
    by (auto simp: sendFull_def split: if_splits)
  have "set (take i (sending s) @ drop (Suc i) (sending s)) \<subseteq> set (sending s)"
    using set_take_subset set_drop_subset by fastforce
  moreover have "sending s ! i \<in> set (sending s)" using i by simp
  ultimately have "inflight s' \<subseteq> inflight s"
    unfolding s' inflight_def by auto
  moreover have "history s' = history s" by (simp add: s')
  ultimately show ?thesis using assms(1) by (auto simp: sealInv_def)
next
  case (LRecv w c)
  with assms(2) obtain es b rest where w: "w < length (workers s)"
    and f: "fullBatches s = b # rest"
    and s': "s' = s\<lparr>fullBatches := rest,
                   workers := (workers s)[w := AtLock (b\<lparr>iteratorIndex := c, events := es\<rparr>) (events b)],
                   history := history s @ [Called w (b\<lparr>iteratorIndex := c\<rparr>)]\<rparr>"
    by (auto simp: work_def split: if_splits worker.splits list.splits)
  have "inflight s' \<subseteq> inflight s \<union> {b\<lparr>iteratorIndex := c, events := es\<rparr>}"
    unfolding s' inflight_def
    using held_update [of "workers s" w "AtLock (b\<lparr>iteratorIndex := c, events := es\<rparr>) (events b)"] f
    by auto
  moreover have "seq b \<in> seq ` set (sealedBatches (history s))"
    using assms(1) f by (simp add: sealInv_def inflight_def)
  ultimately have "\<forall>x \<in> inflight s'. seq x \<in> seq ` set (sealedBatches (history s))"
    using assms(1) by (auto simp: sealInv_def)
  moreover have "passAfterSeal (history s')"
    unfolding s' using assms(1)
      passAfterSeal_snoc_other [of "history s" "Called w (b\<lparr>iteratorIndex := c\<rparr>)"]
    by (simp add: sealInv_def)
  ultimately show ?thesis unfolding s' by (simp add: sealInv_def sealedBatches_append)
next
  case (LStep w)
  with assms(2) have w: "w < length (workers s)"
    and c: "commitBatch w (workers s ! w) s = Some s'" by (simp_all split: if_splits)
  from commitBatch_frame [OF w c] obtain a where
    fr: "held (workers s') \<subseteq> held (workers s)" "sending s' = sending s"
        "fullBatches s' = fullBatches s"
        "sealedBatches (history s') = sealedBatches (history s)"
    and hs: "history s' = history s \<or> history s' = history s @ [a]
                \<and> (\<forall>v S. a = Passed v S \<longrightarrow> (\<exists>b \<in> held (workers s). seq b = S))"
    by blast
  from fr have sub: "inflight s' \<subseteq> inflight s" by (auto simp: inflight_def)
  have "passAfterSeal (history s')"
  proof (cases "history s' = history s")
    case True
    with assms(1) show ?thesis by (simp add: sealInv_def)
  next
    case False
    with hs have ha: "history s' = history s @ [a]"
      and pa: "\<forall>v S. a = Passed v S \<longrightarrow> (\<exists>b \<in> held (workers s). seq b = S)" by auto
    show ?thesis
    proof (cases "\<exists>v S. a = Passed v S")
      case True
      then obtain v S where a: "a = Passed v S" by blast
      with pa obtain b where "b \<in> held (workers s)" "seq b = S" by blast
      with assms(1) have "S \<in> seq ` set (sealedBatches (history s))"
        by (auto simp: sealInv_def inflight_def)
      with assms(1) show ?thesis unfolding ha a
        by (intro passAfterSeal_snoc_Passed) (simp_all add: sealInv_def)
    next
      case False
      with assms(1) show ?thesis unfolding ha
        by (intro passAfterSeal_snoc_other) (simp_all add: sealInv_def)
    qed
  qed
  with assms(1) sub fr(4) show ?thesis by (auto simp: sealInv_def)
qed

lemma Start_sealInv: "Start lim os now = Inr s \<Longrightarrow> sealInv s"
  by (auto simp: Start_def sealInv_def inflight_def passAfterSeal_def split: if_splits sum.splits)

subsection \<open>Conservation of the pool\<close>

lemma holds_simps [simp]:
  "holds (Idle es) = False" "holds (AtLock b es) = True" "holds (AtCheck b es) = True"
  "holds (InWait b es) = True" "holds (AtIncr b es) = True" "holds (AtCommit b es rest) = True"
  "holds (AtUnlock b es) = True" "holds (AtSend b es) = True"
  by (simp_all add: holds_def)

lemma holds_wake [simp]: "holds (wake p) = holds p"
  by (simp add: holds_def)

lemma holds_o_wake [simp]: "holds \<circ> wake = holds"
  by (rule ext) simp

lemma filter_holds_map_wake [simp]:
  "length (filter holds (map wake ps)) = length (filter holds ps)"
  by (induction ps) simp_all

lemma count_update:
  "i < length xs \<Longrightarrow>
     length (filter P (xs[i := y])) + (if P (xs ! i) then 1 else 0)
       = length (filter P xs) + (if P y then 1 else 0)"
proof (induction xs arbitrary: i)
  case Nil
  then show ?case by simp
next
  case (Cons x xs)
  show ?case
  proof (cases i)
    case 0
    then show ?thesis by simp
  next
    case (Suc j)
    with Cons.prems have "j < length xs" by simp
    from Cons.IH [OF this] Suc show ?thesis by simp
  qed
qed

lemma count_update_same:
  "i < length xs \<Longrightarrow> P (xs ! i) = P y \<Longrightarrow>
     length (filter P (xs[i := y])) = length (filter P xs)"
  using count_update [of i xs P y] by (simp split: if_splits)

lemma getBatch_pool:
  "getBatch s now = Some (b, s1) \<Longrightarrow> poolSize s1 = poolSize s \<and> opts s1 = opts s
     \<and> workers s1 = workers s \<and> batch s1 = Some b"
  by (auto simp: getBatch_def poolSize_def split: option.splits list.splits)

lemma trySend_pool:
  "batch s = Some b' \<Longrightarrow> poolSize (trySendBatchAndUnlock s b now) = poolSize s
     \<and> opts (trySendBatchAndUnlock s b now) = opts s
     \<and> workers (trySendBatchAndUnlock s b now) = workers s"
  by (simp add: trySendBatchAndUnlock_def poolSize_def)

lemma commitBatch_pool:
  assumes "w < length (workers s)" and "commitBatch w (workers s ! w) s = Some s'"
  shows "poolSize s' = poolSize s \<and> opts s' = opts s \<and> length (workers s') = length (workers s)"
proof (cases "workers s ! w")
  case (AtCommit b es rest)
  with assms show ?thesis
    by (cases rest) (auto simp: poolSize_def count_update_same)
next
  case (AtSend b es)
  with assms have s': "s' = s\<lparr>freeBatches := freeBatches s @ [b], workers := (workers s)[w := Idle es],
                    history := history s @ [Freed w b]\<rparr>"
    by (simp split: if_splits)
  from count_update [OF assms(1), of holds "Idle es"] AtSend
  have "length (filter holds ((workers s)[w := Idle es])) + 1 = length (filter holds (workers s))"
    by simp
  then show ?thesis unfolding s' by (simp add: poolSize_def)
qed (use assms in \<open>auto simp: poolSize_def count_update_same split: if_splits\<close>)

lemma step_poolInv:
  assumes "poolInv s" and "step l s = Some s'"
  shows "poolInv s'"
proof (cases l)
  case (LAdd e now now')
  with assms(2) obtain b s1 where g: "getBatch s now = Some (b, s1)"
    and s': "s' = trySendBatchAndUnlock (s1\<lparr>batch := Some (append_event b e)\<rparr>) (append_event b e) now'"
    by (auto simp: Add_def split: option.splits)
  let ?s2 = "s1\<lparr>batch := Some (append_event b e)\<rparr>"
  from getBatch_pool [OF g] have "poolSize ?s2 = poolSize s" "opts ?s2 = opts s"
    "workers ?s2 = workers s" "batch ?s2 = Some (append_event b e)"
    by (auto simp: poolSize_def)
  with trySend_pool [of ?s2 "append_event b e" "append_event b e" now'] assms(1)
  show ?thesis unfolding s' by (simp add: poolInv_def)
next
  case (LTick now now')
  with assms(2) obtain b s1 where g: "getBatch s now = Some (b, s1)"
    and s': "s' = trySendBatchAndUnlock s1 b now'"
    by (auto simp: heartbeat_def split: option.splits)
  from getBatch_pool [OF g] trySend_pool [of s1 b b now'] assms(1)
  show ?thesis unfolding s' by (simp add: poolInv_def)
next
  case (LSend i)
  with assms show ?thesis
    by (auto simp: sendFull_def poolInv_def poolSize_def split: if_splits)
next
  case (LRecv w c)
  with assms(2) obtain es b rest where w: "w < length (workers s)"
    and i: "workers s ! w = Idle es" and f: "fullBatches s = b # rest"
    and s': "s' = s\<lparr>fullBatches := rest,
                   workers := (workers s)[w := AtLock (b\<lparr>iteratorIndex := c, events := es\<rparr>) (events b)],
                   history := history s @ [Called w (b\<lparr>iteratorIndex := c\<rparr>)]\<rparr>"
    by (auto simp: work_def split: if_splits worker.splits list.splits)
  from count_update [OF w, of holds "AtLock (b\<lparr>iteratorIndex := c, events := es\<rparr>) (events b)"] i
  have "length (filter holds ((workers s)[w := AtLock (b\<lparr>iteratorIndex := c, events := es\<rparr>) (events b)]))
          = Suc (length (filter holds (workers s)))" by simp
  with assms(1) f show ?thesis unfolding s' by (simp add: poolInv_def poolSize_def)
next
  case (LStep w)
  with assms(2) have w: "w < length (workers s)"
    and c: "commitBatch w (workers s ! w) s = Some s'" by (simp_all split: if_splits)
  from commitBatch_pool [OF w c] assms(1) show ?thesis by (simp add: poolInv_def)
qed

lemma Start_poolInv: "Start lim os now = Inr s \<Longrightarrow> poolInv s"
  by (auto simp: Start_def poolInv_def poolSize_def split: if_splits sum.splits)


subsection \<open>One worker running through commitBatch\<close>




subsection \<open>The calls of one worker\<close>

lemma restore_events [simp]:
  "b\<lparr>iteratorIndex := c, events := events b\<rparr> = b\<lparr>iteratorIndex := c\<rparr>"
  by (cases b) simp

lemma progress_wake [simp]: "progress w (wake p) = progress w p"
  by (cases p) simp_all

lemma toCommit_wake [simp]: "toCommit (wake p) = toCommit p"
  by (cases p) simp_all

lemma workerOk_wake [simp]: "workerOk w (wake p) h = workerOk w p h"
  by (simp add: workerOk_def)

lemma workerOk_extend:
  assumes "workerOk w p h" and "toCommit p'"
    and "progress w p' = progress w p @ filter (byWorker w) as"
  shows "workerOk w p' (h @ as)"
proof -
  from assms(1) obtain calls where
    "filter (byWorker w) h = concat (map (callOf w) calls) @ progress w p"
    by (auto simp: workerOk_def)
  with assms(3) have "filter (byWorker w) (h @ as) = concat (map (callOf w) calls) @ progress w p'"
    by simp
  with assms(2) show ?thesis unfolding workerOk_def by blast
qed

lemma workerOk_finish:
  assumes "workerOk w (AtSend b es) h"
  shows "workerOk w (Idle es') (h @ [Freed w b])"
proof -
  from assms obtain calls where
    c: "filter (byWorker w) h = concat (map (callOf w) calls) @ progress w (AtSend b es)"
    by (auto simp: workerOk_def)
  have "callOf w (b\<lparr>events := es\<rparr>, events b) = progress w (AtSend b es) @ [Freed w b]"
    by (simp add: callOf_def)
  with c have "filter (byWorker w) (h @ [Freed w b])
      = concat (map (callOf w) (calls @ [(b\<lparr>events := es\<rparr>, events b)])) @ progress w (Idle es')"
    by simp
  then show ?thesis unfolding workerOk_def by (metis toCommit.simps(2))
qed

lemma toCommit_next:
  assumes "toCommit (AtCommit b es (e # rest))"
  shows "toCommit (AtCommit b es rest)"
    and "take (length es - length rest) es = take (length es - length (e # rest)) es @ [e]"
proof -
  from assms obtain n where n: "n \<le> length es" "e # rest = drop n es" by auto
  then have lt: "n < length es" by (metis drop_all list.distinct(1) not_le order_le_less)
  from n(2) have l: "length (e # rest) = length es - n" by (metis length_drop)
  from n(2) lt have e: "e = es ! n" and r: "rest = drop (Suc n) es"
    by (metis Cons_nth_drop_Suc list.inject)+
  from lt r show "toCommit (AtCommit b es rest)" by (auto intro!: exI [of _ "Suc n"])
  from l lt have "length es - length (e # rest) = n" "length es - length rest = Suc n" by simp_all
  with lt e show "take (length es - length rest) es = take (length es - length (e # rest)) es @ [e]"
    by (simp add: take_Suc_conv_app_nth)
qed

lemma callsOk_I:
  assumes "callsOk s" and "length (workers s') = length (workers s)"
    and "\<And>v. v < length (workers s) \<Longrightarrow> workerOk v (workers s ! v) (history s)
            \<Longrightarrow> workerOk v (workers s' ! v) (history s')"
  shows "callsOk s'"
  using assms by (simp add: callsOk_def)

lemma workerOk_other:
  "workerOk v p h \<Longrightarrow> filter (byWorker v) as = [] \<Longrightarrow> workerOk v p (h @ as)"
  by (rule workerOk_extend) (simp_all add: workerOk_def)

lemma workerOk_same: "workerOk v p h \<Longrightarrow> toCommit p' \<Longrightarrow> progress v p' = progress v p
    \<Longrightarrow> workerOk v p' h"
  using workerOk_extend [of v p h p' "[]"] by simp

lemma trySend_callsOk:
  assumes "callsOk s"
  shows "callsOk (trySendBatchAndUnlock s b now)"
proof (rule callsOk_I [OF assms])
  show "length (workers (trySendBatchAndUnlock s b now)) = length (workers s)"
    by (simp add: trySendBatchAndUnlock_def)
next
  fix v assume "workerOk v (workers s ! v) (history s)"
  then show "workerOk v (workers (trySendBatchAndUnlock s b now) ! v)
               (history (trySendBatchAndUnlock s b now))"
    by (auto simp: trySendBatchAndUnlock_def intro: workerOk_other)
qed

lemma commitBatch_callsOk:
  assumes "callsOk s" and "gateOk s" and w: "w < length (workers s)"
    and c: "commitBatch w (workers s ! w) s = Some s'"
  shows "callsOk s'"
proof -
  from assms(1) w have me: "workerOk w (workers s ! w) (history s)" by (simp add: callsOk_def)
  show ?thesis
  proof (cases "workers s ! w")
    case (Idle es)
    with c show ?thesis by simp
  next
    case (InWait b es)
    with c show ?thesis by simp
  next
    case (AtLock b es)
    with c have s': "s' = s\<lparr>seqMu := Some w, workers := (workers s)[w := AtCheck b es]\<rparr>"
      by (simp split: if_splits)
    show ?thesis
    proof (rule callsOk_I [OF assms(1)])
      fix v assume v: "v < length (workers s)" and ok: "workerOk v (workers s ! v) (history s)"
      show "workerOk v (workers s' ! v) (history s')"
      proof (cases "v = w")
        case True
        with ok AtLock w show ?thesis by (auto simp: s' intro: workerOk_same)
      next
        case False
        with ok v show ?thesis by (simp add: s')
      qed
    qed (simp add: s')
  next
    case (AtCheck b es)
    show ?thesis
    proof (cases "commitSeq s = seq b")
      case False
      with c AtCheck
      have s': "s' = s\<lparr>seqMu := None, workers := (workers s)[w := InWait b es]\<rparr>" by simp
      show ?thesis
      proof (rule callsOk_I [OF assms(1)])
        fix v assume v: "v < length (workers s)" and ok: "workerOk v (workers s ! v) (history s)"
        show "workerOk v (workers s' ! v) (history s')"
        proof (cases "v = w")
          case True
          with ok AtCheck w show ?thesis by (auto simp: s' intro: workerOk_same)
        next
          case False
          with ok v show ?thesis by (simp add: s')
        qed
      qed (simp add: s')
    next
      case True
      with c AtCheck
      have s': "s' = s\<lparr>workers := (workers s)[w := AtIncr b es],
                         history := history s @ [Passed w (seq b)]\<rparr>" by simp
      show ?thesis
      proof (rule callsOk_I [OF assms(1)])
        fix v assume v: "v < length (workers s)" and ok: "workerOk v (workers s ! v) (history s)"
        show "workerOk v (workers s' ! v) (history s')"
        proof (cases "v = w")
          case True
          with ok AtCheck w show ?thesis by (auto simp: s' intro!: workerOk_extend)
        next
          case False
          with ok v show ?thesis by (auto simp: s' intro: workerOk_other)
        qed
      qed (simp add: s')
    qed
  next
    case (AtIncr b es)
    with c
    have s': "s' = s\<lparr>commitSeq := commitSeq s + 1, workers := (workers s)[w := AtCommit b es es],
              history := history s @ [Advanced w (commitSeq s + 1)]\<rparr>" by simp
    have "inSection (workers s ! w) = Some (seq b, False)" using AtIncr by simp
    from section_decomp(2) [OF assms(2) w this] have cs: "commitSeq s = seq b" by simp
    show ?thesis
    proof (rule callsOk_I [OF assms(1)])
      fix v assume v: "v < length (workers s)" and ok: "workerOk v (workers s ! v) (history s)"
      show "workerOk v (workers s' ! v) (history s')"
      proof (cases "v = w")
        case True
        have "toCommit (AtCommit b es es)" by (auto intro!: exI [of _ 0])
        with True ok AtIncr w cs show ?thesis by (auto simp: s' intro!: workerOk_extend)
      next
        case False
        with ok v show ?thesis by (auto simp: s' intro: workerOk_other)
      qed
    qed (simp add: s')
  next
    case (AtCommit b es rest)
    show ?thesis
    proof (cases rest)
      case Nil
      with c AtCommit
      have s': "s' = s\<lparr>workers := (map wake (workers s))[w := AtUnlock b es]\<rparr>" by simp
      show ?thesis
      proof (rule callsOk_I [OF assms(1)])
        fix v assume v: "v < length (workers s)" and ok: "workerOk v (workers s ! v) (history s)"
        show "workerOk v (workers s' ! v) (history s')"
        proof (cases "v = w")
          case True
          with ok AtCommit Nil w show ?thesis by (auto simp: s' intro: workerOk_same)
        next
          case False
          with ok v show ?thesis by (simp add: s')
        qed
      qed (simp add: s')
    next
      case (Cons e rest')
      with c AtCommit
      have s': "s' = s\<lparr>workers := (workers s)[w := AtCommit b es rest'],
              history := history s @ [Committed w (seq b) e]\<rparr>" by simp
      from me AtCommit Cons have tc: "toCommit (AtCommit b es (e # rest'))"
        by (simp add: workerOk_def)
      show ?thesis
      proof (rule callsOk_I [OF assms(1)])
        fix v assume v: "v < length (workers s)" and ok: "workerOk v (workers s ! v) (history s)"
        show "workerOk v (workers s' ! v) (history s')"
        proof (cases "v = w")
          case True
          have "workerOk w (AtCommit b es rest') (history s @ [Committed w (seq b) e])"
            using ok True AtCommit Cons toCommit_next [OF tc]
            by (intro workerOk_extend [of w "AtCommit b es (e # rest')"]) simp_all
          with True w show ?thesis by (simp add: s')
        next
          case False
          with ok v show ?thesis by (auto simp: s' intro: workerOk_other)
        qed
      qed (simp add: s')
    qed
  next
    case (AtUnlock b es)
    with c
    have s': "s' = s\<lparr>seqMu := None, workers := (workers s)[w := AtSend b es],
              history := history s @ [Unlocked w (seq b)]\<rparr>" by simp
    show ?thesis
    proof (rule callsOk_I [OF assms(1)])
      fix v assume v: "v < length (workers s)" and ok: "workerOk v (workers s ! v) (history s)"
      show "workerOk v (workers s' ! v) (history s')"
      proof (cases "v = w")
        case True
        with ok AtUnlock w show ?thesis by (auto simp: s' intro!: workerOk_extend)
      next
        case False
        with ok v show ?thesis by (auto simp: s' intro: workerOk_other)
      qed
    qed (simp add: s')
  next
    case (AtSend b es)
    with c
    have s': "s' = s\<lparr>freeBatches := freeBatches s @ [b], workers := (workers s)[w := Idle es],
                    history := history s @ [Freed w b]\<rparr>"
      by (simp split: if_splits)
    show ?thesis
    proof (rule callsOk_I [OF assms(1)])
      fix v assume v: "v < length (workers s)" and ok: "workerOk v (workers s ! v) (history s)"
      show "workerOk v (workers s' ! v) (history s')"
      proof (cases "v = w")
        case True
        with ok AtSend w show ?thesis by (auto simp: s' intro: workerOk_finish)
      next
        case False
        with ok v show ?thesis by (auto simp: s' intro: workerOk_other)
      qed
    qed (simp add: s')
  qed
qed

lemma callsOk_cong:
  assumes "callsOk s" and "workers s' = workers s" and "history s' = history s"
  shows "callsOk s'"
  using assms by (simp add: callsOk_def)

lemma step_callsOk:
  assumes "callsOk s" and "gateInv s" and "step l s = Some s'"
  shows "callsOk s'"
proof (cases l)
  case (LAdd e now now')
  with assms(3) obtain b s1 where g: "getBatch s now = Some (b, s1)"
    and s': "s' = trySendBatchAndUnlock (s1\<lparr>batch := Some (append_event b e)\<rparr>) (append_event b e) now'"
    by (auto simp: Add_def split: option.splits)
  have "callsOk (s1\<lparr>batch := Some (append_event b e)\<rparr>)"
    by (rule callsOk_cong [OF assms(1)]) (use getBatch_fields [OF g] in simp_all)
  then show ?thesis unfolding s' by (rule trySend_callsOk)
next
  case (LTick now now')
  with assms(3) obtain b s1 where g: "getBatch s now = Some (b, s1)"
    and s': "s' = trySendBatchAndUnlock s1 b now'"
    by (auto simp: heartbeat_def split: option.splits)
  have "callsOk s1"
    by (rule callsOk_cong [OF assms(1)]) (use getBatch_fields [OF g] in simp_all)
  then show ?thesis unfolding s' by (rule trySend_callsOk)
next
  case (LSend i)
  with assms(3) have s': "s' = s\<lparr>fullBatches := fullBatches s @ [sending s ! i],
                    sending := take i (sending s) @ drop (Suc i) (sending s)\<rparr>"
    by (auto simp: sendFull_def split: if_splits)
  show ?thesis by (rule callsOk_cong [OF assms(1)]) (simp_all add: s')
next
  case (LRecv w c)
  with assms(3) obtain es b rest where w: "w < length (workers s)"
    and i: "workers s ! w = Idle es"
    and s': "s' = s\<lparr>fullBatches := rest,
                   workers := (workers s)[w := AtLock (b\<lparr>iteratorIndex := c, events := es\<rparr>) (events b)],
                   history := history s @ [Called w (b\<lparr>iteratorIndex := c\<rparr>)]\<rparr>"
    by (auto simp: work_def split: if_splits worker.splits list.splits)
  show ?thesis
  proof (rule callsOk_I [OF assms(1)])
    fix v assume v: "v < length (workers s)" and ok: "workerOk v (workers s ! v) (history s)"
    show "workerOk v (workers s' ! v) (history s')"
    proof (cases "v = w")
      case True
      with ok i w show ?thesis by (auto simp: s' intro!: workerOk_extend)
    next
      case False
      with ok v show ?thesis by (auto simp: s' intro: workerOk_other)
    qed
  qed (simp add: s')
next
  case (LStep w)
  with assms(3) have w: "w < length (workers s)"
    and c: "commitBatch w (workers s ! w) s = Some s'" by (simp_all split: if_splits)
  from assms(2) have "gateOk s" by (simp add: gateInv_def)
  from commitBatch_callsOk [OF assms(1) this w c] show ?thesis .
qed

lemma Start_callsOk: "Start lim os now = Inr s \<Longrightarrow> callsOk s"
  by (auto simp: Start_def callsOk_def workerOk_def split: if_splits sum.splits
           intro!: exI [of _ "[]"])

subsection \<open>No lost wake-up\<close>

lemma wakeOk_move:
  assumes "wakeOk s" and w: "w < length (workers s)"
    and ws: "workers s' = (workers s)[w := p']" and cs: "commitSeq s' = commitSeq s"
    and keep: "(\<forall>b es rest. workers s ! w \<noteq> AtCommit b es rest) \<or> (\<exists>b es rest. p' = AtCommit b es rest)"
    and park: "\<forall>b es. p' = InWait b es \<longrightarrow> commitSeq s \<noteq> seq b"
  shows "wakeOk s'"
  unfolding wakeOk_def
proof (intro allI impI)
  fix v b es
  assume v: "v < length (workers s')" and a: "workers s' ! v = InWait b es \<and> commitSeq s' = seq b"
  from v ws have v': "v < length (workers s)" by simp
  have ne: "v \<noteq> w"
  proof
    assume "v = w"
    with a ws w have "p' = InWait b es" by simp
    with park a cs show False by simp
  qed
  with a ws cs have "workers s ! v = InWait b es \<and> commitSeq s = seq b" by simp
  with assms(1) v' obtain u b' es' rest where u: "u < length (workers s)"
    "workers s ! u = AtCommit b' es' rest" unfolding wakeOk_def by blast
  show "\<exists>u < length (workers s'). \<exists>b' es' rest. workers s' ! u = AtCommit b' es' rest"
  proof (cases "u = w")
    case True
    with u keep obtain b2 es2 rest2 where "p' = AtCommit b2 es2 rest2" by blast
    with w ws show ?thesis by (intro exI [of _ w]) simp
  next
    case False
    with u ws show ?thesis by (intro exI [of _ u]) simp
  qed
qed

lemma wakeOk_some:
  "u < length (workers s') \<Longrightarrow> workers s' ! u = AtCommit b es rest \<Longrightarrow> wakeOk s'"
  unfolding wakeOk_def by blast

lemma wake_not_InWait: "wake p \<noteq> InWait b es"
  by (cases p) simp_all

lemma commitBatch_wakeOk:
  assumes "wakeOk s" and w: "w < length (workers s)"
    and c: "commitBatch w (workers s ! w) s = Some s'"
  shows "wakeOk s'"
proof (cases "workers s ! w")
  case (Idle es)
  with c show ?thesis by simp
next
  case (InWait b es)
  with c show ?thesis by simp
next
  case (AtLock b es)
  with c have s': "s' = s\<lparr>seqMu := Some w, workers := (workers s)[w := AtCheck b es]\<rparr>"
    by (simp split: if_splits)
  show ?thesis
    by (rule wakeOk_move [OF assms(1) w, of _ "AtCheck b es"]) (simp_all add: s' AtLock)
next
  case (AtCheck b es)
  show ?thesis
  proof (cases "commitSeq s = seq b")
    case False
    with c AtCheck
    have s': "s' = s\<lparr>seqMu := None, workers := (workers s)[w := InWait b es]\<rparr>" by simp
    show ?thesis
      by (rule wakeOk_move [OF assms(1) w, of _ "InWait b es"]) (simp_all add: s' AtCheck False)
  next
    case True
    with c AtCheck
    have s': "s' = s\<lparr>workers := (workers s)[w := AtIncr b es],
                       history := history s @ [Passed w (seq b)]\<rparr>" by simp
    show ?thesis
      by (rule wakeOk_move [OF assms(1) w, of _ "AtIncr b es"]) (simp_all add: s' AtCheck)
  qed
next
  case (AtIncr b es)
  with c have s': "s' = s\<lparr>commitSeq := commitSeq s + 1, workers := (workers s)[w := AtCommit b es es],
              history := history s @ [Advanced w (commitSeq s + 1)]\<rparr>" by simp
  show ?thesis by (rule wakeOk_some [of w _ b es es]) (use w in \<open>simp_all add: s'\<close>)
next
  case (AtCommit b es rest)
  show ?thesis
  proof (cases rest)
    case Nil
    with c AtCommit
    have s': "s' = s\<lparr>workers := (map wake (workers s))[w := AtUnlock b es]\<rparr>" by simp
    have "workers s' ! v \<noteq> InWait b' es'" if "v < length (workers s)" for v b' es'
      using that by (cases "v = w") (simp_all add: s' wake_not_InWait)
    then show ?thesis unfolding wakeOk_def by (simp add: s')
  next
    case (Cons e rest')
    with c AtCommit
    have s': "s' = s\<lparr>workers := (workers s)[w := AtCommit b es rest'],
              history := history s @ [Committed w (seq b) e]\<rparr>" by simp
    show ?thesis by (rule wakeOk_some [of w _ b es rest']) (use w in \<open>simp_all add: s'\<close>)
  qed
next
  case (AtUnlock b es)
  with c
  have s': "s' = s\<lparr>seqMu := None, workers := (workers s)[w := AtSend b es],
              history := history s @ [Unlocked w (seq b)]\<rparr>" by simp
  show ?thesis
    by (rule wakeOk_move [OF assms(1) w, of _ "AtSend b es"]) (simp_all add: s' AtUnlock)
next
  case (AtSend b es)
  with c
  have s': "s' = s\<lparr>freeBatches := freeBatches s @ [b], workers := (workers s)[w := Idle es],
                    history := history s @ [Freed w b]\<rparr>"
    by (simp split: if_splits)
  show ?thesis
    by (rule wakeOk_move [OF assms(1) w, of _ "Idle es"]) (simp_all add: s' AtSend)
qed

lemma wakeOk_cong:
  assumes "wakeOk s" and "workers s' = workers s" and "commitSeq s' = commitSeq s"
  shows "wakeOk s'"
  using assms by (simp add: wakeOk_def)

lemma trySend_wakeOk: "wakeOk s \<Longrightarrow> wakeOk (trySendBatchAndUnlock s b now)"
  by (erule wakeOk_cong) (simp_all add: trySendBatchAndUnlock_def)

lemma step_wakeOk:
  assumes "wakeOk s" and "step l s = Some s'"
  shows "wakeOk s'"
proof (cases l)
  case (LAdd e now now')
  with assms(2) obtain b s1 where g: "getBatch s now = Some (b, s1)"
    and s': "s' = trySendBatchAndUnlock (s1\<lparr>batch := Some (append_event b e)\<rparr>) (append_event b e) now'"
    by (auto simp: Add_def split: option.splits)
  have "wakeOk (s1\<lparr>batch := Some (append_event b e)\<rparr>)"
    by (rule wakeOk_cong [OF assms(1)]) (use getBatch_fields [OF g] in simp_all)
  then show ?thesis unfolding s' by (rule trySend_wakeOk)
next
  case (LTick now now')
  with assms(2) obtain b s1 where g: "getBatch s now = Some (b, s1)"
    and s': "s' = trySendBatchAndUnlock s1 b now'"
    by (auto simp: heartbeat_def split: option.splits)
  have "wakeOk s1"
    by (rule wakeOk_cong [OF assms(1)]) (use getBatch_fields [OF g] in simp_all)
  then show ?thesis unfolding s' by (rule trySend_wakeOk)
next
  case (LSend i)
  with assms(2) have s': "s' = s\<lparr>fullBatches := fullBatches s @ [sending s ! i],
                    sending := take i (sending s) @ drop (Suc i) (sending s)\<rparr>"
    by (auto simp: sendFull_def split: if_splits)
  show ?thesis by (rule wakeOk_cong [OF assms(1)]) (simp_all add: s')
next
  case (LRecv w c)
  with assms(2) obtain es b rest where w: "w < length (workers s)"
    and i: "workers s ! w = Idle es"
    and s': "s' = s\<lparr>fullBatches := rest,
                   workers := (workers s)[w := AtLock (b\<lparr>iteratorIndex := c, events := es\<rparr>) (events b)],
                   history := history s @ [Called w (b\<lparr>iteratorIndex := c\<rparr>)]\<rparr>"
    by (auto simp: work_def split: if_splits worker.splits list.splits)
  show ?thesis
    by (rule wakeOk_move [OF assms(1) w, of _ "AtLock (b\<lparr>iteratorIndex := c, events := es\<rparr>) (events b)"])
      (simp_all add: s' i)
next
  case (LStep w)
  with assms(2) have w: "w < length (workers s)"
    and c: "commitBatch w (workers s ! w) s = Some s'" by (simp_all split: if_splits)
  from commitBatch_wakeOk [OF assms(1) w c] show ?thesis .
qed

lemma Start_wakeOk: "Start lim os now = Inr s \<Longrightarrow> wakeOk s"
  by (auto simp: Start_def wakeOk_def split: if_splits sum.splits)
subsection \<open>Sample runs\<close>

lemmas sample_defs = os1_def fresh1_def start1_def sealed1_def queued1_def
  os2_def fresh2_def start2_def first2_def second2_def sealed2_def overtaking_def
  atCheck2_def atIncr2_def parked2_def done2_def
  os3_def fresh3_def start3_def sealed3_def after3_def second3_def sched3_def recycled3_def
  ev_def

lemmas batcher_defs = Start_def newBatch_def makeEvents_def reset_def zeroBatch_def Add_def heartbeat_def
  getBatch_def trySendBatchAndUnlock_def append_event_def isReady_def since_def sendFull_def
  work_def Let_def



lemma Start_os2: "Start 1000 os2 0 = Inr start2"
  by (simp add: sample_defs batcher_defs numeral_2_eq_2)

lemma run_sealed2:
  "run [LAdd (ev 0 1 False) 1 1, LAdd (ev 1 1 True) 2 2] start2 = Some sealed2"
  by (simp add: sample_defs batcher_defs)






lemma Start_os3: "Start 1000 os3 0 = Inr start3"
  by (simp add: sample_defs batcher_defs numeral_2_eq_2)

lemma run_after3:
  "run [LAdd (ev 0 4 False) 1 1, LAdd (ev 1 4 False) 2 2, LAdd (ev 2 4 False) 3 3] start3
     = Some after3"
  by (simp add: sample_defs batcher_defs)

lemma run_recycled3: "run sched3 start3 = Some recycled3"
  by (simp add: sample_defs batcher_defs)

subsection \<open>Sealing order, size bounds and the order of commits\<close>

lemma reachable_invariants:
  assumes "Start lim os now = Inr \<sigma>0" and "run ls \<sigma>0 = Some \<sigma>"
  shows "gateInv \<sigma>" and "poolInv \<sigma>" and "sealInv \<sigma>" and "callsOk \<sigma>" and "wakeOk \<sigma>"
    and "sizeInv \<sigma> \<and> opts \<sigma> = os"
proof -
  show "sizeInv \<sigma> \<and> opts \<sigma> = os"
    using assms(2) Start_sizeInv [OF assms(1)]
  proof (rule run_invariant)
    fix l s s' assume "sizeInv s \<and> opts s = os" and "step l s = Some s'"
    then show "sizeInv s' \<and> opts s' = os"
      using step_sizeInv [of s l s'] step_opts [of l s s'] by simp
  qed
  show "wakeOk \<sigma>"
    using assms(2) Start_wakeOk [OF assms(1)] step_wakeOk by (rule run_invariant)
  have "gateInv \<sigma> \<and> callsOk \<sigma>"
    using assms(2)
  proof (rule run_invariant)
    show "gateInv \<sigma>0 \<and> callsOk \<sigma>0"
      using Start_gateInv [OF assms(1)] Start_callsOk [OF assms(1)] by simp
  next
    fix l s s' assume "gateInv s \<and> callsOk s" and "step l s = Some s'"
    then show "gateInv s' \<and> callsOk s'"
      using step_gateInv [of s l s'] step_callsOk [of s l s'] by simp
  qed
  then show "callsOk \<sigma>" by simp
  show "sealInv \<sigma>"
    using assms(2) Start_sealInv [OF assms(1)] step_sealInv by (rule run_invariant)
  show "gateInv \<sigma>"
    using assms(2) Start_gateInv [OF assms(1)] step_gateInv by (rule run_invariant)
  show "poolInv \<sigma>"
    using assms(2) Start_poolInv [OF assms(1)] step_poolInv by (rule run_invariant)
qed



text \<open>
  C6: after any run of the batcher (calls of \<^verbatim>\<open>Add\<close>, ticks of the heartbeat, and
  the workers), every sealed batch has the limits of the options, holds at least one
  event, holds at most \<^verbatim>\<open>maxSizeCount\<close> events when that limit is set, and has at most
  \<^verbatim>\<open>maxSizeBytes\<close> plus the size of its last event as its byte total when that limit is
  set.
\<close>

theorem sealed_size_bounds:
  assumes "Start lim os now = Inr \<sigma>0" and "run ls \<sigma>0 = Some \<sigma>"
    and "b \<in> set (sealedBatches (history \<sigma>))"
  shows "events b \<noteq> []
    \<and> maxSizeCount b = BatchSizeCount os \<and> maxSizeBytes b = BatchSizeBytes os
    \<and> (0 < maxSizeCount b \<longrightarrow> int (length (events b)) \<le> maxSizeCount b)
    \<and> (0 < maxSizeBytes b \<longrightarrow> eventsSize b \<le> maxSizeBytes b + Size (last (events b)))"
proof -
  have "sizeInv \<sigma> \<and> opts \<sigma> = os"
    using assms(2) Start_sizeInv [OF assms(1)]
  proof (rule run_invariant)
    fix l s s' assume "sizeInv s \<and> opts s = os" and "step l s = Some s'"
    then show "sizeInv s' \<and> opts s' = os"
      using step_sizeInv [of s l s'] step_opts [of l s s'] by simp
  qed
  with assms(3) have "sealedOk os b" by (auto simp: sizeInv_def)
  then show ?thesis by (auto simp: sealedOk_def limitsOf_def)
qed

text \<open>
  Witness of C6 (the last event pushes the byte total from 8 to 12, over the limit 10).
\<close>

theorem sealed_size_bounds_witness:
  "Start 1000 os3 0 = Inr start3
   \<and> run [LAdd (ev 0 4 False) 1 1, LAdd (ev 1 4 False) 2 2, LAdd (ev 2 4 False) 3 3] start3
       = Some after3
   \<and> sealedBatches (history after3) = [sealed3]
   \<and> length (events sealed3) = 3
   \<and> maxSizeCount sealed3 = 0 \<and> maxSizeBytes sealed3 = 10
   \<and> eventsSize sealed3 = 12 \<and> Size (last (events sealed3)) = 4
   \<and> eventsSize sealed3 \<le> maxSizeBytes sealed3 + Size (last (events sealed3))
   \<and> Start 1000 os2 0 = Inr start2
   \<and> run [LAdd (ev 0 1 False) 1 1, LAdd (ev 1 1 True) 2 2] start2 = Some sealed2
   \<and> sealedBatches (history sealed2) = [first2, second2]
   \<and> maxSizeCount second2 = 1 \<and> int (length (events second2)) \<le> maxSizeCount second2"
proof -
  have m: "sealed3 \<in> set (sealedBatches (history after3))" by (simp add: after3_def)
  have m2: "second2 \<in> set (sealedBatches (history sealed2))" by (simp add: sealed2_def)
  from sealed_size_bounds [OF Start_os3 run_after3 m]
    sealed_size_bounds [OF Start_os2 run_sealed2 m2]
  show ?thesis
    using Start_os3 run_after3 Start_os2 run_sealed2
    by (simp add: after3_def sealed3_def sealed2_def second2_def first2_def ev_def)
qed






subsection \<open>Readiness of the batches of the batcher\<close>

text \<open>
  C5, as stated, fails in its second half: line 173 of \<^verbatim>\<open>commitBatch\<close> takes the
  events out of the batch and leaves its byte total, and nothing resets the batch
  before \<^verbatim>\<open>getBatch\<close> draws it again. With a byte limit of 10 and three events of
  size 4, the batch that the worker returns to \<^verbatim>\<open>freeBatches\<close> has no events, the
  validated limits 0 and 10 and the byte total 12, and \<^verbatim>\<open>isReady\<close> is true of it at
  every instant.
\<close>

theorem pooled_batch_ready_counterexample:
  "Start 1000 os3 0 = Inr start3
   \<and> run [LAdd (ev 0 4 False) 1 1, LAdd (ev 1 4 False) 2 2, LAdd (ev 2 4 False) 3 3] start3
       = Some after3
   \<and> run [LSend 0, LRecv 0 3, LStep 0, LStep 0, LStep 0, LStep 0, LStep 0, LStep 0, LStep 0,
           LStep 0, LStep 0] after3
       = Some (after3\<lparr>freeBatches := [fresh3, sealed3\<lparr>iteratorIndex := 3, events := []\<rparr>],
            sending := [], commitSeq := 1,
            workers := [Idle [ev 0 4 False, ev 1 4 False, ev 2 4 False], Idle []],
            history := [Sealed sealed3, Called 0 (sealed3\<lparr>iteratorIndex := 3\<rparr>),
              Passed 0 0, Advanced 0 1, Committed 0 0 (ev 0 4 False),
              Committed 0 0 (ev 1 4 False), Committed 0 0 (ev 2 4 False),
              Unlocked 0 0, Freed 0 (sealed3\<lparr>iteratorIndex := 3, events := []\<rparr>)]\<rparr>)
   \<and> events (sealed3\<lparr>iteratorIndex := 3, events := []\<rparr>) = []
   \<and> maxSizeCount (sealed3\<lparr>iteratorIndex := 3, events := []\<rparr>) = 0
   \<and> maxSizeBytes (sealed3\<lparr>iteratorIndex := 3, events := []\<rparr>) = 10
   \<and> eventsSize (sealed3\<lparr>iteratorIndex := 3, events := []\<rparr>) = 12
   \<and> isReady (sealed3\<lparr>iteratorIndex := 3, events := []\<rparr>) 1
   \<and> isReady (sealed3\<lparr>iteratorIndex := 3, events := []\<rparr>) 5000"
proof -
  let ?P = "sealed3\<lparr>iteratorIndex := 3, events := []\<rparr>"
  have r: "run [LSend 0, LRecv 0 3, LStep 0, LStep 0, LStep 0, LStep 0, LStep 0, LStep 0, LStep 0,
           LStep 0, LStep 0] after3
       = Some (after3\<lparr>freeBatches := [fresh3, ?P],
            sending := [], commitSeq := 1,
            workers := [Idle [ev 0 4 False, ev 1 4 False, ev 2 4 False], Idle []],
            history := [Sealed sealed3, Called 0 (sealed3\<lparr>iteratorIndex := 3\<rparr>),
              Passed 0 0, Advanced 0 1, Committed 0 0 (ev 0 4 False),
              Committed 0 0 (ev 1 4 False), Committed 0 0 (ev 2 4 False),
              Unlocked 0 0, Freed 0 ?P]\<rparr>)"
    by (simp add: sample_defs batcher_defs)
  have e: "events ?P = []" by simp
  have m: "maxSizeCount ?P = 0" "maxSizeBytes ?P = 10" "eventsSize ?P = 12"
    by (simp_all add: sealed3_def)
  have i: "isReady ?P 1" "isReady ?P 5000"
    by (simp_all add: isReady_def since_def sealed3_def)
  show ?thesis by (intro conjI) (rule Start_os3 run_after3 r e m i)+
qed

text \<open>
  C5 (amended):
  \<^item> for every batch whose limits are not negative, \<^verbatim>\<open>isReady\<close> is the readiness
    predicate of the specification;
  \<^item> the limits are not negative for every batch built by \<^verbatim>\<open>newBatch\<close> or
    \<^verbatim>\<open>NewPreparedBatch\<close> and changed by reset, append and \<^verbatim>\<open>Next\<close>, and, after
    any run of the batcher, for the open batch and every batch in the channels, in
    flight or with a worker;
  \<^item> a batch with no events and validated limits is ready exactly when its byte
    total has reached a byte limit that is set; it is not ready, whatever its age,
    when its byte total is 0;
  \<^item> after any run of the batcher, the batch that \<^verbatim>\<open>getBatch\<close> returns (the open
    batch, or a batch drawn from \<^verbatim>\<open>freeBatches\<close> and reset, whatever its sequence
    number) has validated limits and the sum of the sizes of its events as its byte
    total, and when it has no events it is not ready and a round of the heartbeat
    seals nothing.
\<close>

theorem isReady_readiness:
  "(limitsOk b \<longrightarrow> isReady b now = readiness b now)
   \<and> ((newBatch lim c m t now0 = Inr b0 \<or> b0 = NewPreparedBatch evs now0)
        \<and> applyOps b0 ops = Inr b1 \<longrightarrow> limitsOk b1)
   \<and> (limitsSet b \<and> events b = [] \<longrightarrow>
        isReady b now = (0 < maxSizeBytes b \<and> maxSizeBytes b \<le> eventsSize b))
   \<and> (limitsSet b \<and> events b = [] \<and> eventsSize b = 0 \<longrightarrow> \<not> isReady b now)
   \<and> (Start lim os now0 = Inr \<sigma>0 \<and> run ls \<sigma>0 = Some \<sigma> \<longrightarrow>
        (\<forall>x. x \<in> poolBatches \<sigma> \<or> batch \<sigma> = Some x \<longrightarrow>
              limitsSet x \<and> isReady x now = readiness x now)
        \<and> (\<forall>x \<sigma>1 t. getBatch \<sigma> t = Some (x, \<sigma>1) \<longrightarrow>
              limitsSet x \<and> eventsSize x = sum_list (map Size (events x))
              \<and> (events x = [] \<longrightarrow> \<not> isReady x now \<and> heartbeat \<sigma> t now = Some \<sigma>1)))"
proof -
  have set_ok: "limitsSet x \<Longrightarrow> limitsOk x" for x by (simp add: limitsSet_def limitsOk_def)
  have 1: "limitsOk x \<longrightarrow> isReady x now = readiness x now" for x
    using isReady_limitsOk [of x now] by (simp add: readiness_def)
  have 2: "(newBatch lim c m t now0 = Inr b0 \<or> b0 = NewPreparedBatch evs now0)
        \<and> applyOps b0 ops = Inr b1 \<longrightarrow> limitsOk b1"
  proof
    assume a: "(newBatch lim c m t now0 = Inr b0 \<or> b0 = NewPreparedBatch evs now0)
        \<and> applyOps b0 ops = Inr b1"
    then have "limitsOk b0"
      using newBatch_facts [of lim c m t now0 b0] NewPreparedBatch_facts [of evs now0]
      by (auto simp: limitsOk_def limitsSet_def)
    with a applyOps_limits [of b0 ops b1] show "limitsOk b1" by (simp add: limitsOk_def)
  qed
  have 3: "limitsSet b \<and> events b = [] \<longrightarrow>
        isReady b now = (0 < maxSizeBytes b \<and> maxSizeBytes b \<le> eventsSize b)"
    by (auto simp: isReady_def limitsSet_def Let_def)
  have 4: "limitsSet b \<and> events b = [] \<and> eventsSize b = 0 \<longrightarrow> \<not> isReady b now"
    by (auto simp: isReady_def limitsSet_def Let_def)
  have 5: "Start lim os now0 = Inr \<sigma>0 \<and> run ls \<sigma>0 = Some \<sigma> \<longrightarrow>
        (\<forall>x. x \<in> poolBatches \<sigma> \<or> batch \<sigma> = Some x \<longrightarrow>
              limitsSet x \<and> isReady x now = readiness x now)
        \<and> (\<forall>x \<sigma>1 t. getBatch \<sigma> t = Some (x, \<sigma>1) \<longrightarrow>
              limitsSet x \<and> eventsSize x = sum_list (map Size (events x))
              \<and> (events x = [] \<longrightarrow> \<not> isReady x now \<and> heartbeat \<sigma> t now = Some \<sigma>1))"
  proof
    assume a: "Start lim os now0 = Inr \<sigma>0 \<and> run ls \<sigma>0 = Some \<sigma>"
    then have si: "sizeInv \<sigma>" using reachable_invariants(6) [of lim os now0 \<sigma>0 ls \<sigma>] by simp
    have p: "limitsSet x \<and> isReady x now = readiness x now"
      if "x \<in> poolBatches \<sigma> \<or> batch \<sigma> = Some x" for x
    proof -
      from that si have "limitsOf (opts \<sigma>) x" by (auto simp: sizeInv_def openOk_def)
      then have "limitsSet x" by (simp add: limitsOf_def)
      with 1 [of x] set_ok [of x] show ?thesis by simp
    qed
    have g: "limitsSet x \<and> eventsSize x = sum_list (map Size (events x))
              \<and> (events x = [] \<longrightarrow> \<not> isReady x now \<and> heartbeat \<sigma> t now = Some \<sigma>1)"
      if gb: "getBatch \<sigma> t = Some (x, \<sigma>1)" for x \<sigma>1 t
    proof -
      from getBatch_sizeInv [OF si gb] have "openOk (opts \<sigma>) x" by simp
      then have ls: "limitsSet x" and ss: "sizeSum x" by (simp_all add: openOk_def limitsOf_def)
      have "\<not> isReady x now \<and> heartbeat \<sigma> t now = Some \<sigma>1" if e: "events x = []"
      proof -
        from empty_not_ready [OF ls ss e] have n: "\<not> isReady x now" .
        with gb show ?thesis by (simp add: heartbeat_def trySendBatchAndUnlock_def)
      qed
      with ls ss show ?thesis by (simp add: sizeSum_def)
    qed
    from p g show "(\<forall>x. x \<in> poolBatches \<sigma> \<or> batch \<sigma> = Some x \<longrightarrow>
              limitsSet x \<and> isReady x now = readiness x now)
        \<and> (\<forall>x \<sigma>1 t. getBatch \<sigma> t = Some (x, \<sigma>1) \<longrightarrow>
              limitsSet x \<and> eventsSize x = sum_list (map Size (events x))
              \<and> (events x = [] \<longrightarrow> \<not> isReady x now \<and> heartbeat \<sigma> t now = Some \<sigma>1))"
      by blast
  qed
  show ?thesis by (intro conjI) (rule 1 2 3 4 5)+
qed

text \<open>
  Witness of C5 (amended): the used batch of sequence number 0 in the pool has no
  events and is ready, as the predicate says (its byte total 12 has reached the
  limit 10); the batch of sequence number 1 that \<^verbatim>\<open>getBatch\<close> draws from the pool has
  been reset and is not ready at the instant 5000, and the heartbeat seals nothing.
\<close>

theorem isReady_readiness_witness:
  "limitsOk (sealed3\<lparr>iteratorIndex := 3, events := []\<rparr>)
   \<and> readiness (sealed3\<lparr>iteratorIndex := 3, events := []\<rparr>) 5000
   \<and> isReady (sealed3\<lparr>iteratorIndex := 3, events := []\<rparr>) 5000
   \<and> newBatch 1000 0 10 1000 0 = Inr fresh3
   \<and> applyOps fresh3 [OpReset 1, OpAppend (ev 0 4 False)]
       = Inr (fresh3\<lparr>startTime := 1, events := [ev 0 4 False], eventsSize := 4\<rparr>)
   \<and> limitsOk (fresh3\<lparr>startTime := 1, events := [ev 0 4 False], eventsSize := 4\<rparr>)
   \<and> limitsSet (sealed3\<lparr>iteratorIndex := 3, events := []\<rparr>)
   \<and> events (sealed3\<lparr>iteratorIndex := 3, events := []\<rparr>) = []
   \<and> 0 < maxSizeBytes (sealed3\<lparr>iteratorIndex := 3, events := []\<rparr>)
   \<and> maxSizeBytes (sealed3\<lparr>iteratorIndex := 3, events := []\<rparr>)
       \<le> eventsSize (sealed3\<lparr>iteratorIndex := 3, events := []\<rparr>)
   \<and> limitsSet (reset second3 9) \<and> events (reset second3 9) = []
   \<and> eventsSize (reset second3 9) = 0 \<and> \<not> isReady (reset second3 9) 5000
   \<and> Start 1000 os3 0 = Inr start3 \<and> run sched3 start3 = Some recycled3
   \<and> sealed3\<lparr>iteratorIndex := 3, events := []\<rparr> \<in> poolBatches recycled3
   \<and> getBatch recycled3 9
       = Some (reset (second3\<lparr>iteratorIndex := 1, events := []\<rparr>) 9,
               recycled3\<lparr>batch := Some (reset (second3\<lparr>iteratorIndex := 1, events := []\<rparr>) 9),
                          freeBatches := [sealed3\<lparr>iteratorIndex := 3, events := []\<rparr>]\<rparr>)
   \<and> seq (reset (second3\<lparr>iteratorIndex := 1, events := []\<rparr>) 9) = 1
   \<and> events (reset (second3\<lparr>iteratorIndex := 1, events := []\<rparr>) 9) = []
   \<and> \<not> isReady (reset (second3\<lparr>iteratorIndex := 1, events := []\<rparr>) 9) 5000
   \<and> heartbeat recycled3 9 5000
       = Some (recycled3\<lparr>batch := Some (reset (second3\<lparr>iteratorIndex := 1, events := []\<rparr>) 9),
                          freeBatches := [sealed3\<lparr>iteratorIndex := 3, events := []\<rparr>]\<rparr>)"
proof -
  let ?P = "sealed3\<lparr>iteratorIndex := 3, events := []\<rparr>"
  let ?A = "fresh3\<lparr>startTime := 1, events := [ev 0 4 False], eventsSize := 4\<rparr>"
  let ?R = "reset (second3\<lparr>iteratorIndex := 1, events := []\<rparr>) 9"
  let ?s = "recycled3\<lparr>batch := Some ?R, freeBatches := [?P]\<rparr>"
  have lo: "limitsOk ?P" by (simp add: limitsOk_def sealed3_def)
  have rd: "readiness ?P 5000" by (simp add: readiness_def sealed3_def)
  have nb: "newBatch 1000 0 10 1000 0 = Inr fresh3"
    by (simp add: newBatch_def makeEvents_def reset_def zeroBatch_def fresh3_def)
  have ao: "applyOps fresh3 [OpReset 1, OpAppend (ev 0 4 False)] = Inr ?A"
    by (simp add: reset_def append_event_def fresh3_def ev_def)
  have ls: "limitsSet ?P" by (simp add: limitsSet_def sealed3_def)
  have ep: "events ?P = []" by simp
  have mb: "0 < maxSizeBytes ?P" "maxSizeBytes ?P \<le> eventsSize ?P" by (simp_all add: sealed3_def)
  have lr: "limitsSet (reset second3 9)" "events (reset second3 9) = []"
    "eventsSize (reset second3 9) = 0"
    by (simp_all add: limitsSet_def reset_def second3_def)
  have pm: "?P \<in> poolBatches recycled3" by (simp add: poolBatches_def recycled3_def)
  have gb: "getBatch recycled3 9 = Some (?R, ?s)" by (simp add: getBatch_def recycled3_def)
  have sq: "seq ?R = 1" by (simp add: reset_def second3_def)
  have er: "events ?R = []" by (simp add: reset_def)
  note t = isReady_readiness [where b = ?P and now = 5000 and lim = 1000 and c = 0 and m = 10
      and t = 1000 and ?now0.0 = 0 and ?b0.0 = fresh3 and ops = "[OpReset 1, OpAppend (ev 0 4 False)]"
      and ?b1.0 = ?A and os = os3 and ?\<sigma>0.0 = start3 and ls = sched3 and \<sigma> = recycled3]
  note t' = isReady_readiness [where b = "reset second3 9" and now = 5000]
  from t have "limitsOk ?P \<longrightarrow> isReady ?P 5000 = readiness ?P 5000" by (rule conjunct1)
  with lo rd have ir: "isReady ?P 5000" by simp
  from t have "(newBatch 1000 0 10 1000 0 = Inr fresh3 \<or> fresh3 = NewPreparedBatch evs 0)
        \<and> applyOps fresh3 [OpReset 1, OpAppend (ev 0 4 False)] = Inr ?A \<longrightarrow> limitsOk ?A"
    by (rule conjunct1 [OF conjunct2])
  with nb ao have la: "limitsOk ?A" by simp
  from t' have "limitsSet (reset second3 9) \<and> events (reset second3 9) = []
       \<and> eventsSize (reset second3 9) = 0 \<longrightarrow> \<not> isReady (reset second3 9) 5000"
    by (rule conjunct1 [OF conjunct2 [OF conjunct2 [OF conjunct2]]])
  with lr have nr: "\<not> isReady (reset second3 9) 5000" by simp
  from t have "Start 1000 os3 0 = Inr start3 \<and> run sched3 start3 = Some recycled3 \<longrightarrow>
        (\<forall>x. x \<in> poolBatches recycled3 \<or> batch recycled3 = Some x \<longrightarrow>
              limitsSet x \<and> isReady x 5000 = readiness x 5000)
        \<and> (\<forall>x \<sigma>1 t. getBatch recycled3 t = Some (x, \<sigma>1) \<longrightarrow>
              limitsSet x \<and> eventsSize x = sum_list (map Size (events x))
              \<and> (events x = [] \<longrightarrow> \<not> isReady x 5000 \<and> heartbeat recycled3 t 5000 = Some \<sigma>1))"
    by (rule conjunct2 [OF conjunct2 [OF conjunct2 [OF conjunct2]]])
  with Start_os3 run_recycled3
  have "\<forall>x \<sigma>1 t. getBatch recycled3 t = Some (x, \<sigma>1) \<longrightarrow>
              limitsSet x \<and> eventsSize x = sum_list (map Size (events x))
              \<and> (events x = [] \<longrightarrow> \<not> isReady x 5000 \<and> heartbeat recycled3 t 5000 = Some \<sigma>1)"
    by simp
  from this [rule_format, OF gb] er
  have ng: "\<not> isReady ?R 5000" and hb: "heartbeat recycled3 9 5000 = Some ?s" by simp_all
  show ?thesis
    by (intro conjI)
      (rule lo rd ir nb ao la ls ep mb lr nr Start_os3 run_recycled3 pm gb sq er ng hb)+
qed

end
